theory Spec2Isabelle
  imports Main "HOL-Library.Word"
begin

section \<open>Outcomes of a call\<close>

text \<open>
  The library is a single C++11 header. A call either returns a value, leaves through one
  of two standard exception classes, or has undefined behaviour (signed overflow of the
  loop counter, a read past the end of the array of ranges). The text carried by
  \<open>std::out_of_range\<close> is not modelled: two of its three sources (\<open>std::stoi\<close> and
  \<open>std::vector::at\<close>) leave it to the standard library.
\<close>

datatype exn = invalid_argument string | out_of_range

datatype 'a outcome = Returns 'a | Throws exn | Undefined

text \<open>The names the specification gives to the failures.\<close>

abbreviation FormatError :: exn where
  "FormatError \<equiv> invalid_argument ''Invalid slice format''"

abbreviation TooManySlices :: exn where
  "TooManySlices \<equiv> invalid_argument ''Too many slices''"

abbreviation OutOfRange :: exn where
  "OutOfRange \<equiv> out_of_range"

text \<open>
  The exception classes involved and their base classes in the standard library;
  a handler \<open>catch (const C&)\<close> takes an exception whose class is \<open>C\<close> or derives from it.
\<close>

datatype exn_class = Std_exception | Std_logic_error | Std_invalid_argument | Std_out_of_range

fun class_of :: "exn \<Rightarrow> exn_class" where
  "class_of (invalid_argument m) = Std_invalid_argument"
| "class_of out_of_range = Std_out_of_range"

fun what :: "exn \<Rightarrow> string option" where
  "what (invalid_argument m) = Some m"
| "what out_of_range = None"

fun derives_from :: "exn_class \<Rightarrow> exn_class \<Rightarrow> bool" where
  "derives_from c Std_exception = True"
| "derives_from Std_exception d = False"
| "derives_from c Std_logic_error = True"
| "derives_from c d = (c = d)"

definition catches :: "exn_class \<Rightarrow> exn \<Rightarrow> bool" where
  "catches c e = derives_from (class_of e) c"

section \<open>Machine integers\<close>

text \<open>
  \<open>int\<close> is a 32-bit two's complement value and \<open>std::size_t\<close> a 64-bit unsigned one
  (the LP64 and LLP64 data models). A word is read as signed by \<open>sint\<close> and as unsigned
  by \<open>unat\<close>.
\<close>

type_synonym int32 = "32 word"
type_synonym size_t = "64 word"

text \<open>The implicit conversion of an \<open>int\<close> to \<open>std::size_t\<close>: sign extension.\<close>

definition to_size_t :: "int32 \<Rightarrow> size_t" where
  "to_size_t i = scast i"

text \<open>
  The conversion of a \<open>std::size_t\<close> back to \<open>int\<close>, as in \<open>idx += this->size()\<close>:
  the low 32 bits (implementation-defined before C++20, and what every mainstream
  compiler does).
\<close>

definition to_int :: "size_t \<Rightarrow> int32" where
  "to_int n = ucast n"

text \<open>\<open>a + b\<close> on two \<open>int\<close>s leaves the range of \<open>int\<close>: undefined behaviour in C++.\<close>

definition add_overflows :: "int32 \<Rightarrow> int32 \<Rightarrow> bool" where
  "add_overflows a b \<longleftrightarrow> sint a + sint b < - (2 ^ 31) \<or> 2 ^ 31 - 1 < sint a + sint b"

section \<open>Range: the slice expression of one axis\<close>

record Range =
  start :: int32
  stop :: int32
  step :: int32
  has_stop :: bool

text \<open>The default constructor \<open>Range()\<close>.\<close>

definition Range0 :: Range where
  "Range0 = \<lparr>start = 0, stop = 0, step = 1, has_stop = False\<rparr>"

subsection \<open>Characters and \<open>std::stoi\<close>\<close>

text \<open>The classes \<open>\s\<close> and \<open>\d\<close> of the regular expressions, in the C locale.\<close>

definition isspace :: "char \<Rightarrow> bool" where
  "isspace c \<longleftrightarrow> c \<in> set [CHR '' '', CHR 0x09, CHR 0x0A, CHR 0x0B, CHR 0x0C, CHR 0x0D]"

definition isdigit :: "char \<Rightarrow> bool" where
  "isdigit c \<longleftrightarrow> c \<in> set ''0123456789''"

definition digit_val :: "char \<Rightarrow> int" where
  "digit_val c = int (of_char c) - 48"

definition digits_val :: "string \<Rightarrow> int" where
  "digits_val ds = foldl (\<lambda>a c. 10 * a + digit_val c) 0 ds"

text \<open>
  \<open>std::stoi\<close> in base 10: leading white space, an optional sign, the longest run of
  digits; \<open>std::invalid_argument\<close> when there is no digit, \<open>std::out_of_range\<close> when the
  number is not an \<open>int\<close>.
\<close>

definition stoi :: "string \<Rightarrow> int32 outcome" where
  "stoi str =
     (let s = dropWhile isspace str;
          neg = (s \<noteq> [] \<and> hd s = CHR ''-'');
          t = (if s \<noteq> [] \<and> (hd s = CHR ''-'' \<or> hd s = CHR ''+'') then tl s else s);
          ds = takeWhile isdigit t;
          v = (if neg then - digits_val ds else digits_val ds)
      in if ds = [] then Throws (invalid_argument ''stoi'')
         else if v < - (2 ^ 31) \<or> 2 ^ 31 - 1 < v then Throws out_of_range
         else Returns (word_of_int v))"

subsection \<open>The two regular expressions of \<open>parseRange\<close>\<close>

text \<open>
  \<open>std::regex_match\<close> against
  \<^verbatim>\<open>^\s*(-?\d+)?\s*:\s*(-?\d+)?\s*:\s*(-?\d+)?\s*$\<close> and
  \<^verbatim>\<open>^\s*(-?\d+)?\s*:\s*(-?\d+)?\s*$\<close>.
  White space, the characters of a number and the colon are disjoint, so a match is found
  by reading the text from the left without backtracking. An unmatched group compares
  equal to the empty string.
\<close>

text \<open>The group \<^verbatim>\<open>(-?\d+)?\<close> at the head of \<open>s\<close>: what it captures, and the rest.\<close>

definition opt_int :: "string \<Rightarrow> string \<times> string" where
  "opt_int s =
     (if s \<noteq> [] \<and> hd s = CHR ''-'' \<and> takeWhile isdigit (tl s) \<noteq> []
      then (CHR ''-'' # takeWhile isdigit (tl s), dropWhile isdigit (tl s))
      else (takeWhile isdigit s, dropWhile isdigit s))"

text \<open>\<^verbatim>\<open>\s*(-?\d+)?\s*\<close> at the head of \<open>s\<close>.\<close>

definition field :: "string \<Rightarrow> string \<times> string" where
  "field s = (let (g, r) = opt_int (dropWhile isspace s) in (g, dropWhile isspace r))"

definition colon :: "string \<Rightarrow> string option" where
  "colon s = (case s of [] \<Rightarrow> None | c # r \<Rightarrow> if c = CHR '':'' then Some r else None)"

definition regex_match3 :: "string \<Rightarrow> (string \<times> string \<times> string) option" where
  "regex_match3 str =
     (let (g1, r1) = field str in
      case colon r1 of None \<Rightarrow> None | Some r2 \<Rightarrow>
      let (g2, r3) = field r2 in
      case colon r3 of None \<Rightarrow> None | Some r4 \<Rightarrow>
      let (g3, r5) = field r4 in
      if r5 = [] then Some (g1, g2, g3) else None)"

definition regex_match2 :: "string \<Rightarrow> (string \<times> string) option" where
  "regex_match2 str =
     (let (g1, r1) = field str in
      case colon r1 of None \<Rightarrow> None | Some r2 \<Rightarrow>
      let (g2, r3) = field r2 in
      if r3 = [] then Some (g1, g2) else None)"

subsection \<open>\<open>Range::parseRange\<close>\<close>

text \<open>\<open>(sm[k] == "") ? d : std::stoi(sm[k])\<close>\<close>

definition stoi_or :: "int32 \<Rightarrow> string \<Rightarrow> int32 outcome" where
  "stoi_or d sm = (if sm = [] then Returns d else stoi sm)"

text \<open>The three assignments in order, then the flag, then the braced return.\<close>

definition mk_range :: "int32 outcome \<Rightarrow> int32 outcome \<Rightarrow> int32 outcome \<Rightarrow> bool \<Rightarrow> Range outcome" where
  "mk_range a b c h =
     (case a of Throws e \<Rightarrow> Throws e | Undefined \<Rightarrow> Undefined | Returns x \<Rightarrow>
      case b of Throws e \<Rightarrow> Throws e | Undefined \<Rightarrow> Undefined | Returns y \<Rightarrow>
      case c of Throws e \<Rightarrow> Throws e | Undefined \<Rightarrow> Undefined | Returns z \<Rightarrow>
        Returns \<lparr>start = x, stop = y, step = z, has_stop = h\<rparr>)"

definition parseRange :: "string \<Rightarrow> Range outcome" where
  "parseRange str =
     (case regex_match3 str of
        Some (sm1, sm2, sm3) \<Rightarrow>
          mk_range (stoi_or 0 sm1) (stoi_or 0 sm2) (stoi_or 1 sm3) (sm2 \<noteq> [])
      | None \<Rightarrow>
          (case regex_match2 str of
             Some (sm1, sm2) \<Rightarrow>
               mk_range (stoi_or 0 sm1) (stoi_or 0 sm2) (Returns 1) (sm2 \<noteq> [])
           | None \<Rightarrow> Throws (invalid_argument ''Invalid slice format'')))"

subsection \<open>The grammar of the specification\<close>

text \<open>
  The specification gives two forms, \<open>start? ":" stop? ":" step?\<close> and
  \<open>start? ":" stop?\<close>, of optional signed integer literals with white space tolerated
  around the literals and the colons. The predicates below say this directly, by the
  pieces a text is made of; \<open>grammar3 s a b c\<close> also names the three literals.
\<close>

definition spaces :: "string \<Rightarrow> bool" where
  "spaces w = list_all isspace w"

definition int_literal :: "string \<Rightarrow> bool" where
  "int_literal g =
     (let ds = (if g \<noteq> [] \<and> hd g = CHR ''-'' then tl g else g)
      in ds \<noteq> [] \<and> list_all isdigit ds)"

definition opt_literal :: "string \<Rightarrow> bool" where
  "opt_literal g \<longleftrightarrow> g = [] \<or> int_literal g"

definition grammar3 :: "string \<Rightarrow> string \<Rightarrow> string \<Rightarrow> string \<Rightarrow> bool" where
  "grammar3 s a b c \<longleftrightarrow>
     opt_literal a \<and> opt_literal b \<and> opt_literal c \<and>
     (\<exists>w1 w2 w3 w4 w5 w6.
        spaces w1 \<and> spaces w2 \<and> spaces w3 \<and> spaces w4 \<and> spaces w5 \<and> spaces w6 \<and>
        s = w1 @ a @ w2 @ '':'' @ w3 @ b @ w4 @ '':'' @ w5 @ c @ w6)"

definition grammar2 :: "string \<Rightarrow> string \<Rightarrow> string \<Rightarrow> bool" where
  "grammar2 s a b \<longleftrightarrow>
     opt_literal a \<and> opt_literal b \<and>
     (\<exists>w1 w2 w3 w4.
        spaces w1 \<and> spaces w2 \<and> spaces w3 \<and> spaces w4 \<and>
        s = w1 @ a @ w2 @ '':'' @ w3 @ b @ w4)"

definition matches_grammar :: "string \<Rightarrow> bool" where
  "matches_grammar s \<longleftrightarrow> (\<exists>a b c. grammar3 s a b c) \<or> (\<exists>a b. grammar2 s a b)"

text \<open>The integer a literal denotes, and whether it is an \<open>int\<close>.\<close>

definition literal_val :: "string \<Rightarrow> int" where
  "literal_val g = (if g \<noteq> [] \<and> hd g = CHR ''-'' then - digits_val (tl g) else digits_val g)"

definition is_int :: "int \<Rightarrow> bool" where
  "is_int v \<longleftrightarrow> - (2 ^ 31) \<le> v \<and> v \<le> 2 ^ 31 - 1"

section \<open>BaseVector: the negative-index accessor\<close>

text \<open>
  A \<open>BaseVector<Dtype>\<close> is a \<open>std::vector<Dtype>\<close>, here a list. \<open>size()\<close> is a
  \<open>std::size_t\<close>; no vector is longer than \<open>max_size()\<close>, which is at most the largest
  \<open>std::ptrdiff_t\<close>.
\<close>

definition max_size :: nat where
  "max_size = 2 ^ 63 - 1"

definition vsize :: "'e list \<Rightarrow> size_t" where
  "vsize xs = of_nat (length xs)"

text \<open>\<open>std::vector::at(n)\<close>: bounds-checked access.\<close>

definition vector_at :: "'e list \<Rightarrow> size_t \<Rightarrow> 'e outcome" where
  "vector_at xs n = (if unat n < length xs then Returns (xs ! unat n) else Throws out_of_range)"

text \<open>
  \<open>BaseVector::at(int idx)\<close>. The sum \<open>idx + this->size()\<close> is formed in \<open>std::size_t\<close>
  and stored back into the \<open>int\<close>; the final call converts the \<open>int\<close> to \<open>std::size_t\<close>.
\<close>

definition at :: "'e list \<Rightarrow> int32 \<Rightarrow> 'e outcome" where
  "at xs idx =
     (if sint idx < 0 then
        (let idx' = to_int (to_size_t idx + vsize xs)
         in if sint idx' < 0 then Throws out_of_range else vector_at xs (to_size_t idx'))
      else vector_at xs (to_size_t idx))"

section \<open>Inner: the ranked array\<close>

text \<open>
  \<open>Inner<Dtype, 1>\<close> is a vector of scalars, \<open>Inner<Dtype, dim>\<close> a vector of
  \<open>Inner<Dtype, dim - 1>\<close>. The rank is a template parameter; \<open>has_dim d A\<close> says that the
  value \<open>A\<close> is of type \<open>Inner<Dtype, d>\<close>. Sibling sub-arrays need not have equal length.
\<close>

datatype 'a inner = Inner1 "'a list" | InnerN "'a inner list"

fun has_dim :: "nat \<Rightarrow> 'a inner \<Rightarrow> bool" where
  "has_dim d (Inner1 xs) = (d = 1)"
| "has_dim d (InnerN cs) = (2 \<le> d \<and> (\<forall>c \<in> set cs. has_dim (d - 1) c))"

text \<open>The length of the outer axis.\<close>

fun outer_length :: "'a inner \<Rightarrow> nat" where
  "outer_length (Inner1 xs) = length xs"
| "outer_length (InnerN cs) = length cs"

text \<open>Every axis of every sub-array is shorter than \<open>b\<close>.\<close>

fun lengths_below :: "nat \<Rightarrow> 'a inner \<Rightarrow> bool" where
  "lengths_below b (Inner1 xs) = (length xs < b)"
| "lengths_below b (InnerN cs) = (length cs < b \<and> (\<forall>c \<in> set cs. lengths_below b c))"


subsection \<open>Copy from lower dimension\<close>

text \<open>
  The constructor \<open>Inner<Dtype, dim>(const Inner<T, M>&)\<close>, enabled for \<open>M < dim\<close>, pushes
  \<open>Inner<T, dim - 1>(lowerDimInner)\<close>: the same constructor again while \<open>M < dim - 1\<close>,
  and the copy constructor when \<open>M = dim - 1\<close>.
\<close>

function from_lower :: "nat \<Rightarrow> nat \<Rightarrow> 'a inner \<Rightarrow> 'a inner" where
  "from_lower dim M lowerDimInner =
     InnerN [if M < dim - 1 then from_lower (dim - 1) M lowerDimInner else lowerDimInner]"
  by pat_completeness auto
termination
  by (relation "measure (\<lambda>(dim, M, l). dim - M)") auto

declare from_lower.simps [simp del]

subsection \<open>Indexing\<close>

text \<open>
  \<open>operator()\<close> applies \<open>at\<close> to its first index and, with more than one index, goes on
  in the sub-array. \<open>call\<close> is the overloads that are not \<open>const\<close>: they return a
  reference to a scalar (rank 1) or to a sub-array, of the type of the nested call. The
  \<open>const\<close> overloads with one index have the same bodies, so \<open>call A idx []\<close> is their
  result as well. \<open>Inner<Dtype, 1>\<close> has the one-index form only, so a longer call on it
  is rejected by the compiler; that case stands for no execution and is marked
  \<open>Undefined\<close>.
\<close>

datatype 'a element = Scalar 'a | Sub "'a inner"

fun call :: "'a inner \<Rightarrow> int32 \<Rightarrow> int32 list \<Rightarrow> 'a element outcome" where
  "call (Inner1 xs) idx [] =
     (case at xs idx of Returns x \<Rightarrow> Returns (Scalar x) | Throws e \<Rightarrow> Throws e
      | Undefined \<Rightarrow> Undefined)"
| "call (InnerN cs) idx [] =
     (case at cs idx of Returns c \<Rightarrow> Returns (Sub c) | Throws e \<Rightarrow> Throws e
      | Undefined \<Rightarrow> Undefined)"
| "call (InnerN cs) idx (j # indices) =
     (case at cs idx of Returns c \<Rightarrow> call c j indices | Throws e \<Rightarrow> Throws e
      | Undefined \<Rightarrow> Undefined)"
| "call (Inner1 xs) idx (j # indices) = Undefined"



section \<open>Slicing\<close>

subsection \<open>The slice loop\<close>

text \<open>
  \<open>slice(slices, start, end)\<close>. The loop
  \<^verbatim>\<open>for(int i = r.start; i < stop; i += r.step)\<close> compares the \<open>int\<close> counter with the
  \<open>std::size_t\<close> bound, so the counter is converted to \<open>std::size_t\<close>; the bound is
  \<open>r.stop\<close> converted to \<open>std::size_t\<close>, or the size. The loop need not end (a zero
  step), so the functions take fuel: every test of the loop condition uses one unit, and
  \<open>None\<close> says that the fuel did not suffice. Reading \<open>slices[start]\<close> outside the array
  and overflowing the counter are undefined behaviour.
\<close>

fun loop1 :: "nat \<Rightarrow> 'a list \<Rightarrow> size_t \<Rightarrow> int32 \<Rightarrow> int32 \<Rightarrow> 'a list \<Rightarrow>
              'a inner outcome option" where
  "loop1 0 xs stopv stepv i result = None"
| "loop1 (Suc fuel) xs stopv stepv i result =
     (if \<not> to_size_t i < stopv then Some (Returns (Inner1 result))
      else case at xs i of
             Throws e \<Rightarrow> Some (Throws e)
           | Undefined \<Rightarrow> Some Undefined
           | Returns x \<Rightarrow>
               if add_overflows i stepv then Some Undefined
               else loop1 fuel xs stopv stepv (i + stepv) (result @ [x]))"

fun slice :: "nat \<Rightarrow> Range list \<Rightarrow> int \<Rightarrow> int \<Rightarrow> 'a inner \<Rightarrow> 'a inner outcome option"
and loopN :: "nat \<Rightarrow> Range list \<Rightarrow> int \<Rightarrow> int \<Rightarrow> 'a inner list \<Rightarrow> size_t \<Rightarrow> int32 \<Rightarrow> int32 \<Rightarrow>
              'a inner list \<Rightarrow> 'a inner outcome option" where
  "slice fuel slices startp endp (Inner1 xs) =
     (if startp = endp then Some (Returns (Inner1 xs))
      else if startp < 0 \<or> int (length slices) \<le> startp then Some Undefined
      else let s = slices ! nat startp;
               stopv = (if has_stop s then to_size_t (stop s) else vsize xs)
           in loop1 fuel xs stopv (step s) (start s) [])"
| "slice fuel slices startp endp (InnerN cs) =
     (if startp = endp then Some (Returns (InnerN cs))
      else if startp < 0 \<or> int (length slices) \<le> startp then Some Undefined
      else let r = slices ! nat startp;
               stopv = (if has_stop r then to_size_t (stop r) else vsize cs)
           in loopN fuel slices startp endp cs stopv (step r) (start r) [])"
| "loopN 0 slices startp endp cs stopv stepv i result = None"
| "loopN (Suc fuel) slices startp endp cs stopv stepv i result =
     (if \<not> to_size_t i < stopv then Some (Returns (InnerN result))
      else case at cs i of
             Throws e \<Rightarrow> Some (Throws e)
           | Undefined \<Rightarrow> Some Undefined
           | Returns c \<Rightarrow>
               (case slice fuel slices (startp + 1) endp c of
                  None \<Rightarrow> None
                | Some (Throws e) \<Rightarrow> Some (Throws e)
                | Some Undefined \<Rightarrow> Some Undefined
                | Some (Returns v) \<Rightarrow>
                    if add_overflows i stepv then Some Undefined
                    else loopN fuel slices startp endp cs stopv stepv (i + stepv) (result @ [v])))"


subsection \<open>Splitting the text at commas\<close>

text \<open>
  \<open>std::sregex_token_iterator\<close> over \<^verbatim>\<open>\s*,\s*\<close> with submatch \<open>-1\<close> yields the text
  before each match, and the text after the last match unless that is empty; a text
  with no match is yielded whole, also when it is empty. \<open>separator s\<close> is the match
  anchored at the head of \<open>s\<close>; the leftmost match starts at the first position where
  it succeeds.
\<close>

definition separator :: "string \<Rightarrow> string option" where
  "separator s =
     (case dropWhile isspace s of
        [] \<Rightarrow> None
      | c # r \<Rightarrow> if c = CHR '','' then Some (dropWhile isspace r) else None)"

lemma separator_shorter: "separator s = Some r \<Longrightarrow> length r < length s"
proof -
  assume "separator s = Some r"
  then obtain t where t: "dropWhile isspace s = CHR '','' # t" and r: "r = dropWhile isspace t"
    by (auto simp add: separator_def split: list.splits if_splits)
  have "length r \<le> length t" unfolding r by (rule length_dropWhile_le)
  moreover have "length (dropWhile isspace s) \<le> length s" by (rule length_dropWhile_le)
  ultimately show ?thesis using t by simp
qed

function tokens_from :: "string \<Rightarrow> string \<Rightarrow> string list" where
  "tokens_from tok [] = [tok]"
| "tokens_from tok (c # s) =
     (case separator (c # s) of
        Some r \<Rightarrow> tok # (if r = [] then [] else tokens_from [] r)
      | None \<Rightarrow> tokens_from (tok @ [c]) s)"
  by pat_completeness auto
termination
  by (relation "measure (\<lambda>(tok, s). length s)") (auto dest: separator_shorter)

definition tokens :: "string \<Rightarrow> string list" where
  "tokens str = tokens_from [] str"

text \<open>
  Whether a text ends with a comma, white space after it aside: the texts whose last
  component is empty and is not yielded.
\<close>

definition ends_with_comma :: "string \<Rightarrow> bool" where
  "ends_with_comma s =
     (case dropWhile isspace (rev s) of [] \<Rightarrow> False | c # r \<Rightarrow> c = CHR '','')"

subsection \<open>\<open>operator[]\<close>\<close>

text \<open>
  The loop of the general \<open>operator[]\<close>: \<open>slices\<close> holds the entries assigned so far,
  so the counter \<open>i\<close> of the source is its length.
\<close>

fun parse_slices :: "nat \<Rightarrow> string list \<Rightarrow> Range list \<Rightarrow> Range list outcome" where
  "parse_slices dim [] slices = Returns slices"
| "parse_slices dim (tok # toks) slices =
     (if dim \<le> length slices then Throws (invalid_argument ''Too many slices'')
      else case parseRange tok of
             Returns r \<Rightarrow> parse_slices dim toks (slices @ [r])
           | Throws e \<Rightarrow> Throws e
           | Undefined \<Rightarrow> Undefined)"

text \<open>The exception of the first text of a list that \<open>parseRange\<close> rejects, if any.\<close>

fun first_failure :: "string list \<Rightarrow> exn option" where
  "first_failure [] = None"
| "first_failure (tok # toks) =
     (case parseRange tok of Throws e \<Rightarrow> Some e | _ \<Rightarrow> first_failure toks)"

text \<open>
  \<open>Inner<Dtype, dim>::operator[]\<close> of the primary template, the operator of every rank
  from 2 on: the array of \<open>dim\<close> ranges starts as \<open>dim\<close> default ranges, the first \<open>i\<close>
  of which are overwritten; then \<open>slice(slices, 0, i)\<close>.
\<close>

definition subscriptN :: "nat \<Rightarrow> nat \<Rightarrow> 'a inner \<Rightarrow> string \<Rightarrow> 'a inner outcome option" where
  "subscriptN dim fuel A input =
     (case parse_slices dim (tokens input) [] of
        Throws e \<Rightarrow> Some (Throws e)
      | Undefined \<Rightarrow> Some Undefined
      | Returns rs \<Rightarrow>
          slice fuel (rs @ replicate (dim - length rs) Range0) 0 (int (length rs)) A)"

text \<open>
  \<open>Inner<Dtype, 1>::operator[]\<close> is not modelled: its body ends in the call
  \<open>slice(slices)\<close> with one argument, while the only \<open>slice\<close> of the class takes three
  and has no defaults, so the member cannot be instantiated and no program calls it.
  An array of rank 1 is sliced through \<open>slice\<close>, by the loop of the rank above it.
\<close>

subsection \<open>Objects\<close>





section \<open>The operations as the specification words them\<close>

text \<open>
  Section 4.2 of the specification: \<open>at(i)\<close> on integers. A negative \<open>i\<close> becomes
  \<open>i + length\<close>; a result that is still negative, or not below the length, is OutOfRange.
\<close>

definition at_spec :: "'e list \<Rightarrow> int \<Rightarrow> 'e outcome" where
  "at_spec xs i =
     (let j = (if i < 0 then i + int (length xs) else i)
      in if j < 0 then Throws OutOfRange
         else if int (length xs) \<le> j then Throws OutOfRange
         else Returns (xs ! nat j))"


text \<open>
  Section 4.3: \<open>select(ranges, axisIndex, axisCount)\<close> on integers, with the same fuel.
  The comparison of the counter with the limit is a parameter: \<open>(<)\<close> is the
  specification as worded; \<open>less_unsigned\<close> compares the two as unsigned 64-bit values,
  a negative number counting as \<open>2 ^ 64\<close> more.
\<close>

definition less_unsigned :: "int \<Rightarrow> int \<Rightarrow> bool" where
  "less_unsigned i l \<longleftrightarrow> i mod 2 ^ 64 < l mod 2 ^ 64"

fun select_loop1 :: "(int \<Rightarrow> int \<Rightarrow> bool) \<Rightarrow> nat \<Rightarrow> 'a list \<Rightarrow> int \<Rightarrow> int \<Rightarrow> int \<Rightarrow> 'a list \<Rightarrow>
                     'a inner outcome option" where
  "select_loop1 below 0 xs limit stp i acc = None"
| "select_loop1 below (Suc fuel) xs limit stp i acc =
     (if \<not> below i limit then Some (Returns (Inner1 acc))
      else case at_spec xs i of
             Throws e \<Rightarrow> Some (Throws e)
           | Undefined \<Rightarrow> Some Undefined
           | Returns x \<Rightarrow> select_loop1 below fuel xs limit stp (i + stp) (acc @ [x]))"

fun select :: "(int \<Rightarrow> int \<Rightarrow> bool) \<Rightarrow> nat \<Rightarrow> Range list \<Rightarrow> nat \<Rightarrow> nat \<Rightarrow> 'a inner \<Rightarrow>
               'a inner outcome option"
and select_loopN :: "(int \<Rightarrow> int \<Rightarrow> bool) \<Rightarrow> nat \<Rightarrow> Range list \<Rightarrow> nat \<Rightarrow> nat \<Rightarrow> 'a inner list \<Rightarrow>
               int \<Rightarrow> int \<Rightarrow> int \<Rightarrow> 'a inner list \<Rightarrow> 'a inner outcome option" where
  "select below fuel ranges axisIndex axisCount (Inner1 xs) =
     (if axisIndex = axisCount then Some (Returns (Inner1 xs))
      else if length ranges \<le> axisIndex then Some Undefined
      else let r = ranges ! axisIndex;
               limit = (if has_stop r then sint (stop r) else int (length xs))
           in select_loop1 below fuel xs limit (sint (step r)) (sint (start r)) [])"
| "select below fuel ranges axisIndex axisCount (InnerN cs) =
     (if axisIndex = axisCount then Some (Returns (InnerN cs))
      else if length ranges \<le> axisIndex then Some Undefined
      else let r = ranges ! axisIndex;
               limit = (if has_stop r then sint (stop r) else int (length cs))
           in select_loopN below fuel ranges axisIndex axisCount cs limit
                (sint (step r)) (sint (start r)) [])"
| "select_loopN below 0 ranges axisIndex axisCount cs limit stp i acc = None"
| "select_loopN below (Suc fuel) ranges axisIndex axisCount cs limit stp i acc =
     (if \<not> below i limit then Some (Returns (InnerN acc))
      else case at_spec cs i of
             Throws e \<Rightarrow> Some (Throws e)
           | Undefined \<Rightarrow> Some Undefined
           | Returns c \<Rightarrow>
               (case select below fuel ranges (axisIndex + 1) axisCount c of
                  None \<Rightarrow> None
                | Some (Throws e) \<Rightarrow> Some (Throws e)
                | Some Undefined \<Rightarrow> Some Undefined
                | Some (Returns v) \<Rightarrow>
                    select_loopN below fuel ranges axisIndex axisCount cs limit stp
                      (i + stp) (acc @ [v])))"

text \<open>
  A range whose fields are all non-negative: the ranges for which the two comparisons
  agree.
\<close>

definition ordinary :: "Range \<Rightarrow> bool" where
  "ordinary r \<longleftrightarrow> 0 \<le> sint (start r) \<and> 0 \<le> sint (step r) \<and> (has_stop r \<longrightarrow> 0 \<le> sint (stop r))"




section \<open>The parser: the regular expressions and the grammar agree\<close>

lemma dropWhile_spaces:
  "spaces w \<Longrightarrow> r = [] \<or> \<not> isspace (hd r) \<Longrightarrow> dropWhile isspace (w @ r) = r"
  by (induction w) (auto simp: spaces_def dropWhile_eq_self_iff)

lemma takeWhile_digits:
  "list_all isdigit ds \<Longrightarrow> r = [] \<or> \<not> isdigit (hd r) \<Longrightarrow> takeWhile isdigit (ds @ r) = ds"
  by (induction ds) (auto simp: takeWhile_eq_Nil_iff)

lemma dropWhile_digits:
  "list_all isdigit ds \<Longrightarrow> r = [] \<or> \<not> isdigit (hd r) \<Longrightarrow> dropWhile isdigit (ds @ r) = r"
  by (induction ds) (auto simp: dropWhile_eq_self_iff)

lemma minus_not_digit: "\<not> isdigit (CHR ''-'')" by (simp add: isdigit_def)
lemma colon_not_digit: "\<not> isdigit (CHR '':'')" by (simp add: isdigit_def)
lemma colon_not_space: "\<not> isspace (CHR '':'')" by (simp add: isspace_def)
lemma minus_not_space: "\<not> isspace (CHR ''-'')" by (simp add: isspace_def)
lemma digit_not_space: "isdigit c \<Longrightarrow> \<not> isspace c" by (auto simp add: isspace_def isdigit_def)

lemma all_takeWhile: "list_all P (takeWhile P xs)"
  by (induction xs) auto

lemma hd_dropWhile_not: "dropWhile P xs = [] \<or> \<not> P (hd (dropWhile P xs))"
  by (induction xs) auto

lemma opt_int_sound:
  assumes "opt_int s = (g, r)"
  shows "s = g @ r \<and> opt_literal g \<and> (r = [] \<or> \<not> isdigit (hd r))"
proof (cases "s \<noteq> [] \<and> hd s = CHR ''-'' \<and> takeWhile isdigit (tl s) \<noteq> []")
  case True
  then have g: "g = CHR ''-'' # takeWhile isdigit (tl s)" and r: "r = dropWhile isdigit (tl s)"
    using assms by (simp_all add: opt_int_def)
  from True have "s = CHR ''-'' # tl s" by (cases s) auto
  then have "s = CHR ''-'' # takeWhile isdigit (tl s) @ dropWhile isdigit (tl s)"
    by simp
  moreover have "opt_literal g"
    using True by (simp add: g opt_literal_def int_literal_def all_takeWhile)
  ultimately show ?thesis using g r hd_dropWhile_not [of isdigit "tl s"] by simp
next
  case False
  then have g: "g = takeWhile isdigit s" and r: "r = dropWhile isdigit s"
    using assms by (auto simp add: opt_int_def)
  have "opt_literal g"
  proof (cases "g = []")
    case True then show ?thesis by (simp add: opt_literal_def)
  next
    case ne: False
    have "list_all isdigit g" using all_takeWhile [of isdigit s] g by simp
    with ne have "isdigit (hd g)" by (cases g) auto
    then have "hd g \<noteq> CHR ''-''" using minus_not_digit by auto
    then show ?thesis using ne all_takeWhile [of isdigit s] g
      by (simp add: opt_literal_def int_literal_def)
  qed
  then show ?thesis using g r hd_dropWhile_not [of isdigit s] by simp
qed

lemma opt_int_complete:
  assumes "opt_literal g" and "r = [] \<or> (\<not> isdigit (hd r) \<and> hd r \<noteq> CHR ''-'')"
  shows "opt_int (g @ r) = (g, r)"
proof (cases "g = []")
  case True
  have "takeWhile isdigit r = []" using assms(2) by (cases r) auto
  moreover have "dropWhile isdigit r = r" using assms(2) by (cases r) auto
  ultimately show ?thesis using True assms(2) by (auto simp add: opt_int_def)
next
  case False
  then have lit: "int_literal g" using assms(1) by (simp add: opt_literal_def)
  have r: "r = [] \<or> \<not> isdigit (hd r)" using assms(2) by auto
  show ?thesis
  proof (cases "hd g = CHR ''-''")
    case True
    then obtain ds where g: "g = CHR ''-'' # ds" and ds: "ds \<noteq> []" "list_all isdigit ds"
      using lit False by (cases g) (auto simp add: int_literal_def)
    show ?thesis using ds takeWhile_digits [OF ds(2) r] dropWhile_digits [OF ds(2) r]
      by (simp add: opt_int_def g)
  next
    case nm: False
    then have ds: "list_all isdigit g" using lit False by (auto simp add: int_literal_def)
    have "g @ r \<noteq> [] \<and> hd (g @ r) \<noteq> CHR ''-''" using False nm by simp
    then show ?thesis using takeWhile_digits [OF ds r] dropWhile_digits [OF ds r]
      by (simp add: opt_int_def)
  qed
qed

lemma opt_literal_hd: "opt_literal g \<Longrightarrow> g \<noteq> [] \<Longrightarrow> \<not> isspace (hd g)"
  by (cases g) (auto simp add: opt_literal_def int_literal_def minus_not_space digit_not_space split: if_splits)

lemma field_sound:
  assumes "field s = (g, r)"
  shows "opt_literal g \<and> (\<exists>w1 w2. spaces w1 \<and> spaces w2 \<and> s = w1 @ g @ w2 @ r)"
proof -
  obtain r' where o: "opt_int (dropWhile isspace s) = (g, r')" and r: "r = dropWhile isspace r'"
    using assms by (auto simp add: field_def split: prod.splits)
  from opt_int_sound [OF o] have 1: "dropWhile isspace s = g @ r'" and 2: "opt_literal g" by auto
  have "s = takeWhile isspace s @ g @ takeWhile isspace r' @ r"
    using 1 r by (metis takeWhile_dropWhile_id)
  moreover have "spaces (takeWhile isspace s)" "spaces (takeWhile isspace r')"
    by (simp_all add: spaces_def all_takeWhile)
  ultimately show ?thesis using 2 by blast
qed

lemma field_complete:
  assumes "spaces w1" "opt_literal g" "spaces w2" "r = [] \<or> hd r = CHR '':''"
  shows "field (w1 @ g @ w2 @ r) = (g, r)"
proof -
  have r: "r = [] \<or> \<not> isspace (hd r)" using assms(4) colon_not_space by auto
  have r': "r = [] \<or> (\<not> isdigit (hd r) \<and> hd r \<noteq> CHR ''-'')"
    using assms(4) colon_not_digit by auto
  have a: "dropWhile isspace (w2 @ r) = r" by (rule dropWhile_spaces [OF assms(3) r])
  show ?thesis
  proof (cases "g = []")
    case True
    have "spaces (w1 @ w2)" using assms(1,3) by (simp add: spaces_def)
    from dropWhile_spaces [OF this r] have "dropWhile isspace (w1 @ g @ w2 @ r) = r"
      using True by simp
    moreover have "opt_int r = ([], r)" using opt_int_complete [of "[]" r] r'
      by (simp add: opt_literal_def)
    moreover have "dropWhile isspace r = r" using dropWhile_spaces [of "[]" r] r
      by (simp add: spaces_def)
    ultimately show ?thesis using True by (simp add: field_def)
  next
    case False
    have hd2: "w2 @ r = [] \<or> (\<not> isdigit (hd (w2 @ r)) \<and> hd (w2 @ r) \<noteq> CHR ''-'')"
    proof (cases w2)
      case Nil then show ?thesis using r' by auto
    next
      case (Cons c cs)
      then have "isspace c" using assms(3) by (simp add: spaces_def)
      then show ?thesis using Cons digit_not_space minus_not_space by auto
    qed
    have hd1: "g @ w2 @ r = [] \<or> \<not> isspace (hd (g @ w2 @ r))"
      using False opt_literal_hd [OF assms(2)] by simp
    have "dropWhile isspace (w1 @ g @ w2 @ r) = g @ w2 @ r"
      by (rule dropWhile_spaces [OF assms(1) hd1])
    then show ?thesis using opt_int_complete [OF assms(2) hd2] a by (simp add: field_def)
  qed
qed

lemma colon_Some: "colon s = Some r \<longleftrightarrow> s = CHR '':'' # r"
  by (auto simp add: colon_def split: list.splits)

lemma regex_match3_sound:
  assumes "regex_match3 s = Some (a, b, c)"
  shows "grammar3 s a b c"
proof -
  obtain r1 r2 r3 r4 where
    f1: "field s = (a, r1)" and c1: "colon r1 = Some r2" and
    f2: "field r2 = (b, r3)" and c2: "colon r3 = Some r4" and
    f3: "field r4 = (c, [])"
    using assms
    by (auto simp add: regex_match3_def split: prod.splits option.splits if_splits)
  from field_sound [OF f1] obtain w1 w2 where
    1: "opt_literal a" "spaces w1" "spaces w2" "s = w1 @ a @ w2 @ r1" by blast
  from field_sound [OF f2] obtain w3 w4 where
    2: "opt_literal b" "spaces w3" "spaces w4" "r2 = w3 @ b @ w4 @ r3" by blast
  from field_sound [OF f3] obtain w5 w6 where
    3: "opt_literal c" "spaces w5" "spaces w6" "r4 = w5 @ c @ w6 @ []" by blast
  have "s = w1 @ a @ w2 @ '':'' @ w3 @ b @ w4 @ '':'' @ w5 @ c @ w6"
    using 1(4) 2(4) 3(4) c1 c2 by (simp add: colon_Some)
  then show ?thesis
    unfolding grammar3_def using 1(1-3) 2(1-3) 3(1-3) by blast
qed

lemma regex_match3_complete:
  assumes "grammar3 s a b c"
  shows "regex_match3 s = Some (a, b, c)"
proof -
  from assms obtain w1 w2 w3 w4 w5 w6 where
    l: "opt_literal a" "opt_literal b" "opt_literal c" and
    w: "spaces w1" "spaces w2" "spaces w3" "spaces w4" "spaces w5" "spaces w6" and
    s: "s = w1 @ a @ w2 @ '':'' @ w3 @ b @ w4 @ '':'' @ w5 @ c @ w6"
    unfolding grammar3_def by blast
  have f1: "field s = (a, '':'' @ w3 @ b @ w4 @ '':'' @ w5 @ c @ w6)"
    unfolding s by (rule field_complete [OF w(1) l(1) w(2)]) simp
  have f2: "field (w3 @ b @ w4 @ '':'' @ w5 @ c @ w6) = (b, '':'' @ w5 @ c @ w6)"
    by (rule field_complete [OF w(3) l(2) w(4)]) simp
  have f3: "field (w5 @ c @ w6) = (c, [])"
    using field_complete [OF w(5) l(3) w(6), of "[]"] by simp
  show ?thesis
    using f1 f2 f3 by (simp add: regex_match3_def colon_def)
qed

lemma regex_match3_iff: "regex_match3 s = Some (a, b, c) \<longleftrightarrow> grammar3 s a b c"
  using regex_match3_sound regex_match3_complete by blast

lemma regex_match2_sound:
  assumes "regex_match2 s = Some (a, b)"
  shows "grammar2 s a b"
proof -
  obtain r1 r2 where
    f1: "field s = (a, r1)" and c1: "colon r1 = Some r2" and
    f2: "field r2 = (b, [])"
    using assms
    by (auto simp add: regex_match2_def split: prod.splits option.splits if_splits)
  from field_sound [OF f1] obtain w1 w2 where
    1: "opt_literal a" "spaces w1" "spaces w2" "s = w1 @ a @ w2 @ r1" by blast
  from field_sound [OF f2] obtain w3 w4 where
    2: "opt_literal b" "spaces w3" "spaces w4" "r2 = w3 @ b @ w4 @ []" by blast
  have "s = w1 @ a @ w2 @ '':'' @ w3 @ b @ w4"
    using 1(4) 2(4) c1 by (simp add: colon_Some)
  then show ?thesis
    unfolding grammar2_def using 1(1-3) 2(1-3) by blast
qed

lemma regex_match2_complete:
  assumes "grammar2 s a b"
  shows "regex_match2 s = Some (a, b)"
proof -
  from assms obtain w1 w2 w3 w4 where
    l: "opt_literal a" "opt_literal b" and
    w: "spaces w1" "spaces w2" "spaces w3" "spaces w4" and
    s: "s = w1 @ a @ w2 @ '':'' @ w3 @ b @ w4"
    unfolding grammar2_def by blast
  have f1: "field s = (a, '':'' @ w3 @ b @ w4)"
    unfolding s by (rule field_complete [OF w(1) l(1) w(2)]) simp
  have f2: "field (w3 @ b @ w4) = (b, [])"
    using field_complete [OF w(3) l(2) w(4), of "[]"] by simp
  show ?thesis
    using f1 f2 by (simp add: regex_match2_def colon_def)
qed

lemma regex_match2_iff: "regex_match2 s = Some (a, b) \<longleftrightarrow> grammar2 s a b"
  using regex_match2_sound regex_match2_complete by blast

text \<open>The two forms exclude each other: they differ in the number of colons.\<close>

lemma count_colon_spaces: "spaces w \<Longrightarrow> count_list w (CHR '':'') = 0"
  by (induction w) (auto simp add: spaces_def colon_not_space)

lemma count_colon_digits: "list_all isdigit w \<Longrightarrow> count_list w (CHR '':'') = 0"
  by (induction w) (auto simp add: colon_not_digit)

lemma count_colon_literal: "opt_literal g \<Longrightarrow> count_list g (CHR '':'') = 0"
  by (cases g) (auto simp add: opt_literal_def int_literal_def count_colon_digits colon_not_digit
      split: if_splits)

lemma grammar3_colons: "grammar3 s a b c \<Longrightarrow> count_list s (CHR '':'') = 2"
  by (auto simp add: grammar3_def count_colon_spaces count_colon_literal)

lemma grammar2_colons: "grammar2 s a b \<Longrightarrow> count_list s (CHR '':'') = 1"
  by (auto simp add: grammar2_def count_colon_spaces count_colon_literal)

lemma grammar2_not_match3: "grammar2 s a b \<Longrightarrow> regex_match3 s = None"
proof (rule ccontr)
  assume g: "grammar2 s a b" and "regex_match3 s \<noteq> None"
  then obtain x y z where "regex_match3 s = Some (x, y, z)" by auto
  then have "grammar3 s x y z" by (rule regex_match3_sound)
  then show False using grammar2_colons [OF g] grammar3_colons by fastforce
qed

lemma stoi_literal:
  assumes "opt_literal g" "g \<noteq> []"
  shows "stoi g = (if is_int (literal_val g) then Returns (word_of_int (literal_val g))
                   else Throws out_of_range)"
proof -
  have lit: "int_literal g" using assms by (simp add: opt_literal_def)
  have sp: "dropWhile isspace g = g"
    using opt_literal_hd [OF assms] assms(2) by (cases g) auto
  show ?thesis
  proof (cases "hd g = CHR ''-''")
    case True
    then have ds: "tl g \<noteq> []" "list_all isdigit (tl g)"
      using lit assms(2) by (auto simp add: int_literal_def Let_def)
    have tw: "takeWhile isdigit (tl g) = tl g"
      using takeWhile_digits [OF ds(2), of "[]"] by simp
    show ?thesis using True ds(1) assms(2)
      by (simp add: stoi_def literal_val_def is_int_def Let_def sp tw not_less)
  next
    case False
    then have ds: "list_all isdigit g" using lit assms(2) by (auto simp add: int_literal_def Let_def)
    then have "isdigit (hd g)" using assms(2) by (cases g) auto
    then have np: "hd g \<noteq> CHR ''+''" by (auto simp add: isdigit_def)
    have tw: "takeWhile isdigit g = g"
      using takeWhile_digits [OF ds, of "[]"] by simp
    show ?thesis using False np assms(2)
      by (simp add: stoi_def literal_val_def is_int_def Let_def sp tw not_less)
  qed
qed

lemma literal_val_Nil: "literal_val [] = 0"
  by (simp add: literal_val_def digits_val_def)

lemma stoi_or_literal:
  "opt_literal g \<Longrightarrow> stoi_or d g =
     (if is_int (literal_val g) then Returns (if g = [] then d else word_of_int (literal_val g))
      else Throws out_of_range)"
  by (cases "g = []") (simp_all add: stoi_or_def stoi_literal literal_val_Nil is_int_def)

lemma parseRange_grammar3:
  assumes "grammar3 s a b c"
  shows "parseRange s =
    (if is_int (literal_val a) \<and> is_int (literal_val b) \<and> is_int (literal_val c)
     then Returns \<lparr>start = (if a = [] then 0 else word_of_int (literal_val a)),
                   stop = (if b = [] then 0 else word_of_int (literal_val b)),
                   step = (if c = [] then 1 else word_of_int (literal_val c)),
                   has_stop = (b \<noteq> [])\<rparr>
     else Throws out_of_range)"
proof -
  have l: "opt_literal a" "opt_literal b" "opt_literal c"
    using assms by (simp_all add: grammar3_def)
  show ?thesis
    using regex_match3_complete [OF assms]
    by (simp add: parseRange_def mk_range_def stoi_or_literal [OF l(1)] stoi_or_literal [OF l(2)]
        stoi_or_literal [OF l(3)])
qed

lemma parseRange_grammar2:
  assumes "grammar2 s a b"
  shows "parseRange s =
    (if is_int (literal_val a) \<and> is_int (literal_val b)
     then Returns \<lparr>start = (if a = [] then 0 else word_of_int (literal_val a)),
                   stop = (if b = [] then 0 else word_of_int (literal_val b)),
                   step = 1,
                   has_stop = (b \<noteq> [])\<rparr>
     else Throws out_of_range)"
proof -
  have l: "opt_literal a" "opt_literal b"
    using assms by (simp_all add: grammar2_def)
  show ?thesis
    using regex_match2_complete [OF assms] grammar2_not_match3 [OF assms]
    by (simp add: parseRange_def mk_range_def stoi_or_literal [OF l(1)] stoi_or_literal [OF l(2)])
qed

lemma parseRange_FormatError_iff:
  "parseRange s = Throws FormatError \<longleftrightarrow> \<not> matches_grammar s"
proof
  assume t: "parseRange s = Throws FormatError"
  show "\<not> matches_grammar s"
  proof
    assume "matches_grammar s"
    then consider a b c where "grammar3 s a b c" | a b where "grammar2 s a b"
      unfolding matches_grammar_def by blast
    then show False
    proof cases
      case 1 then show ?thesis using t parseRange_grammar3 [OF 1] by (auto split: if_splits)
    next
      case 2 then show ?thesis using t parseRange_grammar2 [OF 2] by (auto split: if_splits)
    qed
  qed
next
  assume n: "\<not> matches_grammar s"
  have "regex_match3 s = None"
  proof (cases "regex_match3 s")
    case (Some t)
    then obtain a b c where "regex_match3 s = Some (a, b, c)" by (cases t) auto
    then have "grammar3 s a b c" by (rule regex_match3_sound)
    then show ?thesis using n unfolding matches_grammar_def by blast
  qed simp
  moreover have "regex_match2 s = None"
  proof (cases "regex_match2 s")
    case (Some t)
    then obtain a b where "regex_match2 s = Some (a, b)" by (cases t) auto
    then have "grammar2 s a b" by (rule regex_match2_sound)
    then show ?thesis using n unfolding matches_grammar_def by blast
  qed simp
  ultimately show "parseRange s = Throws FormatError"
    by (simp add: parseRange_def)
qed

lemmas parse_eval = parseRange_def regex_match3_def regex_match2_def field_def opt_int_def
  colon_def isspace_def isdigit_def mk_range_def stoi_or_def stoi_def digits_val_def digit_val_def

section \<open>Machine integers and integers\<close>

lemma sint_range32: "- 2147483648 \<le> sint (i :: int32) \<and> sint i < 2147483648"
  using sint_ge [of i] sint_lt [of i] by simp

lemma uint_to_size_t: "uint (to_size_t i) = sint i mod 18446744073709551616"
  unfolding to_size_t_def scast_eq uint_word_of_int by simp

lemma uint_vsize: "uint (vsize xs) = int (length xs) mod 18446744073709551616"
proof -
  have "unat (vsize xs) = length xs mod 2 ^ 64"
    unfolding vsize_def by (simp only: unat_of_nat) simp
  then have "int (unat (vsize xs)) = int (length xs mod 2 ^ 64)" by (rule arg_cong)
  then show ?thesis by (simp add: zmod_int)
qed

lemma sint_to_int: "sint (to_int n) = signed_take_bit 31 (uint n)"
  unfolding to_int_def ucast_eq sint_sbintrunc' by simp

lemma sint_add_no_overflow:
  assumes "\<not> add_overflows a b"
  shows "sint (a + b) = sint a + sint b"
proof -
  have "- (2 ^ 31) \<le> sint a + sint b" "sint a + sint b < 2 ^ 31"
    using assms unfolding add_overflows_def by simp_all
  then have "signed_take_bit 31 (sint a + sint b) = sint a + sint b"
    by (rule signed_take_bit_int_eq_self)
  then show ?thesis unfolding sint_word_add by simp
qed

lemma uint_to_size_t_nonneg: "0 \<le> sint i \<Longrightarrow> uint (to_size_t i) = sint i"
proof -
  assume "0 \<le> sint i"
  then have "sint i mod 18446744073709551616 = sint i"
    using sint_range32 [of i] by (intro mod_pos_pos_trivial) simp_all
  then show ?thesis unfolding uint_to_size_t .
qed

lemma unat_to_size_t_nonneg: "0 \<le> sint i \<Longrightarrow> unat (to_size_t i) = nat (sint i)"
  using uint_to_size_t_nonneg [of i] unfolding unat_eq_nat_uint by simp

lemma uint_to_size_t_neg:
  assumes n: "sint i < 0"
  shows "uint (to_size_t i) = 18446744073709551616 + sint i"
proof -
  have "(sint i + 18446744073709551616) mod 18446744073709551616 = sint i + 18446744073709551616"
    using n sint_range32 [of i] by (intro mod_pos_pos_trivial) simp_all
  then have "sint i mod 18446744073709551616 = 18446744073709551616 + sint i"
    by (simp add: add.commute)
  then show ?thesis unfolding uint_to_size_t .
qed

lemma uint_vsize_small: "length xs < 18446744073709551616 \<Longrightarrow> uint (vsize xs) = int (length xs)"
  unfolding uint_vsize by (intro mod_pos_pos_trivial) simp_all

lemma at_negative:
  assumes n: "length xs < 2147483648" and neg: "sint idx < 0"
  shows "sint (to_int (to_size_t idx + vsize xs)) = sint idx + int (length xs)"
proof -
  have v: "uint (vsize xs) = int (length xs)"
    using n by (intro uint_vsize_small) simp
  have "uint (to_size_t idx + vsize xs) =
        (18446744073709551616 + sint idx + int (length xs)) mod 18446744073709551616"
    unfolding uint_word_ariths uint_to_size_t_neg [OF neg] v by simp
  also have "\<dots> = (18446744073709551616 + (sint idx + int (length xs))) mod 18446744073709551616"
    by (simp add: add.assoc)
  also have "\<dots> = (sint idx + int (length xs)) mod 18446744073709551616"
    by (rule mod_add_self1)
  finally have u: "uint (to_size_t idx + vsize xs) = take_bit 64 (sint idx + int (length xs))"
    by (simp add: take_bit_eq_mod)
  have "sint (to_int (to_size_t idx + vsize xs)) = signed_take_bit 31 (sint idx + int (length xs))"
    unfolding sint_to_int u by (simp add: signed_take_bit_take_bit)
  also have "\<dots> = sint idx + int (length xs)"
    using sint_range32 [of idx] neg n by (intro signed_take_bit_int_eq_self) simp_all
  finally show ?thesis .
qed

lemma at_eq_at_spec:
  assumes n: "length xs < 2147483648"
  shows "at xs idx = at_spec xs (sint idx)"
proof (cases "sint idx < 0")
  case True
  let ?j = "sint idx + int (length xs)"
  note s = at_negative [OF n True]
  show ?thesis
  proof (cases "?j < 0")
    case True
    then show ?thesis using \<open>sint idx < 0\<close> s by (simp add: at_def at_spec_def Let_def)
  next
    case False
    then have "unat (to_size_t (to_int (to_size_t idx + vsize xs))) = nat ?j"
      using unat_to_size_t_nonneg [of "to_int (to_size_t idx + vsize xs)"] s by simp
    moreover have "nat ?j < length xs" using True False by linarith
    ultimately show ?thesis using True False s
      by (simp add: at_def at_spec_def Let_def vector_at_def)
  qed
next
  case False
  then have "unat (to_size_t idx) = nat (sint idx)"
    using unat_to_size_t_nonneg [of idx] by simp
  then show ?thesis using False
    by (auto simp add: at_def at_spec_def Let_def vector_at_def)
qed

lemma less_size_t_iff:
  "to_size_t i < (if has_stop r then to_size_t (stop r) else vsize xs) \<longleftrightarrow>
   less_unsigned (sint i) (if has_stop r then sint (stop r) else int (length xs))"
  unfolding word_less_def less_unsigned_def
  by (simp add: uint_to_size_t uint_vsize)

section \<open>The slice loop on machine integers and on integers\<close>

lemma loop1_refines:
  assumes n: "length xs < 2147483648"
    and lim: "\<And>j. to_size_t j < stopv \<longleftrightarrow> less_unsigned (sint j) limit"
  shows "loop1 fuel xs stopv stepv i acc = Some Undefined \<or>
         loop1 fuel xs stopv stepv i acc =
           select_loop1 less_unsigned fuel xs limit (sint stepv) (sint i) acc"
proof (induction fuel arbitrary: i acc)
  case 0
  show ?case by simp
next
  case (Suc fuel)
  show ?case
  proof (cases "to_size_t i < stopv")
    case False
    then show ?thesis using lim [of i] by simp
  next
    case True
    then have b: "less_unsigned (sint i) limit" using lim [of i] by simp
    show ?thesis
    proof (cases "at_spec xs (sint i)")
      case (Returns x)
      show ?thesis
      proof (cases "add_overflows i stepv")
        case ov: True
        then show ?thesis using True Returns by (simp add: at_eq_at_spec [OF n])
      next
        case nov: False
        from Suc.IH [of "i + stepv" "acc @ [x]"]
        show ?thesis using True b Returns nov
          by (simp add: at_eq_at_spec [OF n] sint_add_no_overflow [OF nov])
      qed
    next
      case (Throws e)
      then show ?thesis using True b by (simp add: at_eq_at_spec [OF n])
    next
      case Undefined
      then show ?thesis using True b by (simp add: at_eq_at_spec [OF n])
    qed
  qed
qed

lemma less_size_t_stop:
  "to_size_t j < (if has_stop r then to_size_t (stop r) else vsize xs) \<longleftrightarrow>
   less_unsigned (sint j) (if has_stop r then sint (stop r) else int (length xs))"
  by (rule less_size_t_iff)

lemma slice_from_loopN:
  assumes Q: "\<And>k (cs :: 'a inner list) stopv limit stepv i acc.
      length cs < 2147483648 \<Longrightarrow> (\<forall>c \<in> set cs. lengths_below 2147483648 c) \<Longrightarrow>
      (\<And>j. to_size_t j < stopv \<longleftrightarrow> less_unsigned (sint j) limit) \<Longrightarrow>
      loopN fuel rs (int k) (int n) cs stopv stepv i acc = Some Undefined \<or>
      loopN fuel rs (int k) (int n) cs stopv stepv i acc =
        select_loopN less_unsigned fuel rs k n cs limit (sint stepv) (sint i) acc"
    and lb: "lengths_below 2147483648 (A :: 'a inner)"
  shows "slice fuel rs (int k) (int n) A = Some Undefined \<or>
         slice fuel rs (int k) (int n) A = select less_unsigned fuel rs k n A"
proof (cases A)
  case (Inner1 xs)
  then have n: "length xs < 2147483648" using lb by simp
  show ?thesis
  proof (cases "k = n \<or> length rs \<le> k")
    case True
    then show ?thesis using Inner1 by auto
  next
    case False
    let ?r = "rs ! k"
    have "loop1 fuel xs (if has_stop ?r then to_size_t (stop ?r) else vsize xs) (step ?r) (start ?r) [] = Some Undefined \<or>
          loop1 fuel xs (if has_stop ?r then to_size_t (stop ?r) else vsize xs) (step ?r) (start ?r) [] =
          select_loop1 less_unsigned fuel xs (if has_stop ?r then sint (stop ?r) else int (length xs))
             (sint (step ?r)) (sint (start ?r)) []"
      by (rule loop1_refines [OF n less_size_t_stop])
    then show ?thesis using False Inner1 by (simp add: Let_def)
  qed
next
  case (InnerN cs)
  then have n: "length cs < 2147483648" "\<forall>c \<in> set cs. lengths_below 2147483648 c"
    using lb by simp_all
  show ?thesis
  proof (cases "k = n \<or> length rs \<le> k")
    case True
    then show ?thesis using InnerN by auto
  next
    case False
    let ?r = "rs ! k"
    have "loopN fuel rs (int k) (int n) cs (if has_stop ?r then to_size_t (stop ?r) else vsize cs)
             (step ?r) (start ?r) [] = Some Undefined \<or>
          loopN fuel rs (int k) (int n) cs (if has_stop ?r then to_size_t (stop ?r) else vsize cs)
             (step ?r) (start ?r) [] =
          select_loopN less_unsigned fuel rs k n cs
             (if has_stop ?r then sint (stop ?r) else int (length cs))
             (sint (step ?r)) (sint (start ?r)) []"
      by (rule Q [OF n less_size_t_stop])
    then show ?thesis using False InnerN by (simp add: Let_def)
  qed
qed

lemma loopN_refines:
  fixes cs :: "'a inner list"
  assumes n: "length cs < 2147483648" and lb: "\<forall>c \<in> set cs. lengths_below 2147483648 c"
    and lim: "\<And>j. to_size_t j < stopv \<longleftrightarrow> less_unsigned (sint j) limit"
  shows "loopN fuel rs (int k) (int n) cs stopv stepv i acc = Some Undefined \<or>
         loopN fuel rs (int k) (int n) cs stopv stepv i acc =
           select_loopN less_unsigned fuel rs k n cs limit (sint stepv) (sint i) acc"
  using n lb lim
proof (induction fuel arbitrary: k cs stopv limit stepv i acc)
  case 0
  show ?case by simp
next
  case (Suc fuel)
  note n = Suc.prems(1) and lb = Suc.prems(2) and lim = Suc.prems(3)
  show ?case
  proof (cases "to_size_t i < stopv")
    case False
    then show ?thesis using lim [of i] by simp
  next
    case True
    then have b: "less_unsigned (sint i) limit" using lim [of i] by simp
    show ?thesis
    proof (cases "at_spec cs (sint i)")
      case (Returns c)
      then have "c \<in> set cs"
        by (auto simp add: at_spec_def Let_def split: if_splits)
      then have lc: "lengths_below 2147483648 c" using lb by simp
      have sl: "slice fuel rs (int (k + 1)) (int n) c = Some Undefined \<or>
                slice fuel rs (int (k + 1)) (int n) c = select less_unsigned fuel rs (k + 1) n c"
        by (rule slice_from_loopN [OF Suc.IH lc])
      have k1: "int k + 1 = int (k + 1)" by simp
      show ?thesis
      proof (cases "select less_unsigned fuel rs (k + 1) n c")
        case None
        then show ?thesis using True b Returns sl
          by (auto simp add: at_eq_at_spec [OF n] k1 simp del: of_nat_add of_nat_Suc)
      next
        case (Some res)
        show ?thesis
        proof (cases "slice fuel rs (int (k + 1)) (int n) c = Some Undefined")
          case u: True
          then show ?thesis using True Returns
            by (simp add: at_eq_at_spec [OF n] k1 del: of_nat_add of_nat_Suc)
        next
          case nu: False
          then have eq: "slice fuel rs (int (k + 1)) (int n) c = Some res"
            using sl Some by simp
          show ?thesis
          proof (cases res)
            case (Returns v)
            show ?thesis
            proof (cases "add_overflows i stepv")
              case ov: True
              then show ?thesis using True \<open>at_spec cs (sint i) = Returns c\<close> eq Returns
                by (simp add: at_eq_at_spec [OF n] k1 del: of_nat_add of_nat_Suc)
            next
              case nov: False
              from Suc.IH [OF n lb lim, of k stepv "i + stepv" "acc @ [v]"]
              show ?thesis
                using True b \<open>at_spec cs (sint i) = Returns c\<close> eq Some Returns nov
                by (simp add: at_eq_at_spec [OF n] k1 sint_add_no_overflow [OF nov]
                    del: of_nat_add of_nat_Suc)
            qed
          next
            case (Throws e)
            then show ?thesis using True b \<open>at_spec cs (sint i) = Returns c\<close> eq Some
              by (simp add: at_eq_at_spec [OF n] k1 del: of_nat_add of_nat_Suc)
          next
            case Undefined
            then show ?thesis using nu eq by simp
          qed
        qed
      qed
    next
      case (Throws e)
      then show ?thesis using True b by (simp add: at_eq_at_spec [OF n])
    next
      case Undefined
      then show ?thesis using True b by (simp add: at_eq_at_spec [OF n])
    qed
  qed
qed

lemma slice_refines:
  assumes "lengths_below 2147483648 A"
  shows "slice fuel rs (int k) (int n) A = Some Undefined \<or>
         slice fuel rs (int k) (int n) A = select less_unsigned fuel rs k n A"
  by (rule slice_from_loopN [OF loopN_refines assms])

lemma less_unsigned_small:
  "0 \<le> i \<Longrightarrow> i < 4294967296 \<Longrightarrow> 0 \<le> l \<Longrightarrow> l < 2147483648 \<Longrightarrow> less_unsigned i l \<longleftrightarrow> i < l"
  unfolding less_unsigned_def by (simp add: mod_pos_pos_trivial)

lemma select_loop1_ordinary:
  assumes "0 \<le> limit" "limit < 2147483648" "0 \<le> stp" "stp < 2147483648"
  shows "0 \<le> i \<Longrightarrow> i < 4294967296 \<Longrightarrow>
         select_loop1 less_unsigned fuel xs limit stp i acc = select_loop1 (<) fuel xs limit stp i acc"
proof (induction fuel arbitrary: i acc)
  case 0
  show ?case by simp
next
  case (Suc fuel)
  have c: "less_unsigned i limit \<longleftrightarrow> i < limit"
    using Suc.prems assms by (intro less_unsigned_small) simp_all
  show ?case
  proof (cases "i < limit")
    case False
    then show ?thesis using c by simp
  next
    case True
    then have "0 \<le> i + stp" "i + stp < 4294967296" using Suc.prems assms by simp_all
    from Suc.IH [OF this] show ?thesis using c True
      by (simp split: outcome.splits)
  qed
qed

lemma limit_ordinary:
  assumes "ordinary r" "n < 2147483648"
  shows "0 \<le> (if has_stop r then sint (stop r) else int n) \<and>
         (if has_stop r then sint (stop r) else int n) < 2147483648"
  using assms sint_range32 [of "stop r"] by (simp add: ordinary_def)

lemma select_from_loopN_ordinary:
  assumes Q: "\<And>k (cs :: 'a inner list) limit stp i acc.
      length cs < 2147483648 \<Longrightarrow> (\<forall>c \<in> set cs. lengths_below 2147483648 c) \<Longrightarrow>
      0 \<le> limit \<Longrightarrow> limit < 2147483648 \<Longrightarrow> 0 \<le> stp \<Longrightarrow> stp < 2147483648 \<Longrightarrow>
      0 \<le> i \<Longrightarrow> i < 4294967296 \<Longrightarrow>
      select_loopN less_unsigned fuel rs k n cs limit stp i acc =
      select_loopN (<) fuel rs k n cs limit stp i acc"
    and lb: "lengths_below 2147483648 (A :: 'a inner)"
    and ord: "\<forall>r \<in> set rs. ordinary r"
  shows "select less_unsigned fuel rs k n A = select (<) fuel rs k n A"
proof (cases "k = n \<or> length rs \<le> k")
  case True
  then show ?thesis by (cases A) auto
next
  case False
  let ?r = "rs ! k"
  have r: "ordinary ?r" using ord False by simp
  have s: "0 \<le> sint (step ?r)" "sint (step ?r) < 2147483648"
    "0 \<le> sint (start ?r)" "sint (start ?r) < 4294967296"
    using r sint_range32 [of "step ?r"] sint_range32 [of "start ?r"]
    by (simp_all add: ordinary_def)
  show ?thesis
  proof (cases A)
    case (Inner1 xs)
    then have n: "length xs < 2147483648" using lb by simp
    note l = limit_ordinary [OF r n]
    show ?thesis using False Inner1
      by (simp add: Let_def
          select_loop1_ordinary [OF l [THEN conjunct1] l [THEN conjunct2] s(1,2) s(3,4)]
          split del: if_split)
  next
    case (InnerN cs)
    then have n: "length cs < 2147483648" "\<forall>c \<in> set cs. lengths_below 2147483648 c"
      using lb by simp_all
    note l = limit_ordinary [OF r n(1)]
    show ?thesis using False InnerN
      by (simp add: Let_def Q [OF n l [THEN conjunct1] l [THEN conjunct2] s]
          split del: if_split)
  qed
qed

lemma select_loopN_ordinary:
  fixes cs :: "'a inner list"
  assumes ord: "\<forall>r \<in> set rs. ordinary r"
  shows "length cs < 2147483648 \<Longrightarrow> (\<forall>c \<in> set cs. lengths_below 2147483648 c) \<Longrightarrow>
      0 \<le> limit \<Longrightarrow> limit < 2147483648 \<Longrightarrow> 0 \<le> stp \<Longrightarrow> stp < 2147483648 \<Longrightarrow>
      0 \<le> i \<Longrightarrow> i < 4294967296 \<Longrightarrow>
      select_loopN less_unsigned fuel rs k n cs limit stp i acc =
      select_loopN (<) fuel rs k n cs limit stp i acc"
proof (induction fuel arbitrary: k cs limit stp i acc)
  case 0
  show ?case by simp
next
  case (Suc fuel)
  have c: "less_unsigned i limit \<longleftrightarrow> i < limit"
    using Suc.prems by (intro less_unsigned_small) simp_all
  show ?case
  proof (cases "i < limit")
    case False
    then show ?thesis using c by simp
  next
    case True
    then have i': "0 \<le> i + stp" "i + stp < 4294967296" using Suc.prems by simp_all
    note ih = Suc.IH [OF Suc.prems(1-6) i']
    show ?thesis
    proof (cases "at_spec cs i")
      case (Returns ch)
      then have "ch \<in> set cs"
        by (auto simp add: at_spec_def Let_def split: if_splits)
      then have lc: "lengths_below 2147483648 ch" using Suc.prems(2) by simp
      have "select less_unsigned fuel rs (k + 1) n ch = select (<) fuel rs (k + 1) n ch"
        by (rule select_from_loopN_ordinary [OF Suc.IH lc ord])
      then show ?thesis using c True Returns ih
        by (simp split: option.splits outcome.splits)
    next
      case (Throws e)
      then show ?thesis using c True by simp
    next
      case Undefined
      then show ?thesis using c True by simp
    qed
  qed
qed

lemma select_ordinary:
  assumes "lengths_below 2147483648 A" "\<forall>r \<in> set rs. ordinary r"
  shows "select less_unsigned fuel rs k n A = select (<) fuel rs k n A"
  by (rule select_from_loopN_ordinary [OF select_loopN_ordinary [OF assms(2)] assms])

text \<open>
  At every level \<open>slice\<close> is the procedure \<open>select\<close> of the specification with the
  counter and the limit compared as unsigned 64-bit values, for arrays all of whose axes
  are shorter than \<open>2 ^ 31\<close> and for every call whose behaviour is defined, for every
  amount of fuel. When all fields of the ranges are non-negative the comparison is the
  plain \<open>i < limit\<close> of the specification: the two procedures differ on negative
  fields only.
\<close>

lemma slice_as_select:
  assumes "lengths_below 2147483648 A"
    and "slice fuel rs (int k) (int n) A \<noteq> Some Undefined"
  shows "slice fuel rs (int k) (int n) A = select less_unsigned fuel rs k n A \<and>
         ((\<forall>r \<in> set rs. ordinary r) \<longrightarrow>
            slice fuel rs (int k) (int n) A = select (<) fuel rs k n A)"
proof -
  have 1: "slice fuel rs (int k) (int n) A = select less_unsigned fuel rs k n A"
    using slice_refines [OF assms(1), of fuel rs k n] assms(2) by simp
  then show ?thesis using select_ordinary [OF assms(1), of rs fuel k n] by simp
qed

section \<open>The accessor at the ends of a vector\<close>

lemma sint_word_of_int32: "- 2147483648 \<le> v \<Longrightarrow> v < 2147483648 \<Longrightarrow> sint (word_of_int v :: int32) = v"
  unfolding sint_sbintrunc' by (simp add: signed_take_bit_int_eq_self)

lemma at_last:
  assumes "length xs < 2147483648" "xs \<noteq> []"
  shows "at xs (- 1) = Returns (last xs)"
    and "at xs (word_of_int (int (length xs) - 1)) = Returns (last xs)"
proof -
  have l: "last xs = xs ! (length xs - 1)" using assms(2) by (rule last_conv_nth)
  have p: "0 < length xs" using assms(2) by simp
  show "at xs (- 1) = Returns (last xs)"
    unfolding at_eq_at_spec [OF assms(1)] using p l
    by (simp add: at_spec_def Let_def nat_diff_distrib')
  have s: "sint (word_of_int (int (length xs) - 1) :: int32) = int (length xs) - 1"
    using assms(1) p by (intro sint_word_of_int32) simp_all
  show "at xs (word_of_int (int (length xs) - 1)) = Returns (last xs)"
    unfolding at_eq_at_spec [OF assms(1)] s using p l
    by (simp add: at_spec_def Let_def nat_diff_distrib')
qed




section \<open>Call-style indexing\<close>







section \<open>Copying from a lower rank\<close>

lemma from_lower_funpow:
  "M < dim \<Longrightarrow> from_lower dim M B = ((\<lambda>x. InnerN [x]) ^^ (dim - M)) B"
proof (induction dim)
  case 0
  then show ?case by simp
next
  case (Suc d)
  show ?case
  proof (cases "M < d")
    case True
    then have "Suc d - M = Suc (d - M)" by simp
    then show ?thesis using Suc.IH [OF True] True
      by (subst from_lower.simps) simp
  next
    case False
    then have "M = d" using Suc.prems by simp
    then show ?thesis by (subst from_lower.simps) simp
  qed
qed

lemma has_dim_wrap:
  "has_dim M B \<Longrightarrow> 1 \<le> M \<Longrightarrow> has_dim (M + k) (((\<lambda>x. InnerN [x]) ^^ k) B)"
  by (induction k) simp_all

section \<open>The parsing loop of \<open>operator[]\<close>\<close>

lemma stoi_defined: "stoi s \<noteq> Undefined"
  by (simp add: stoi_def Let_def)

lemma parseRange_defined: "parseRange s \<noteq> Undefined"
  using stoi_defined
  by (auto simp add: parseRange_def mk_range_def stoi_or_def
      split: option.splits prod.splits outcome.splits)

lemma parse_slices_too_many:
  "length acc \<le> dim \<Longrightarrow> dim < length acc + length toks \<Longrightarrow>
   parse_slices dim toks acc =
     Throws (case first_failure (take (dim - length acc) toks) of
               None \<Rightarrow> TooManySlices | Some e \<Rightarrow> e)"
proof (induction toks arbitrary: acc)
  case Nil
  then show ?case by simp
next
  case (Cons tok toks)
  show ?case
  proof (cases "dim \<le> length acc")
    case True
    then show ?thesis by simp
  next
    case False
    then obtain m where m: "dim - length acc = Suc m" "dim - length (acc @ [tok']) = m" for tok' :: Range
      by (cases "dim - length acc") auto
    show ?thesis
    proof (cases "parseRange tok")
      case (Returns r)
      have "length (acc @ [r]) \<le> dim" "dim < length (acc @ [r]) + length toks"
        using Cons.prems False by simp_all
      from Cons.IH [OF this] show ?thesis using False Returns m by simp
    next
      case (Throws e)
      then show ?thesis using False m by simp
    next
      case Undefined
      then show ?thesis using parseRange_defined by blast
    qed
  qed
qed

lemma comma_not_space: "\<not> isspace (CHR '','')" by (simp add: isspace_def)

lemma subscriptN_too_many:
  assumes "dim < length (tokens input)"
  shows "subscriptN dim fuel A input =
     Some (Throws (case first_failure (take dim (tokens input)) of
               None \<Rightarrow> TooManySlices | Some e \<Rightarrow> e))"
  using parse_slices_too_many [where dim = dim and acc = "[]" and toks = "tokens input"] assms
  by (simp add: subscriptN_def)

lemmas tokens_eval = tokens_def separator_def isspace_def

section \<open>The number of components\<close>

lemma separator_split:
  assumes "separator s = Some r"
  shows "\<exists>w1 w2. s = w1 @ CHR '','' # w2 @ r \<and> list_all isspace w1 \<and> list_all isspace w2 \<and>
           (r \<noteq> [] \<longrightarrow> \<not> isspace (hd r))"
proof -
  from assms obtain t where t: "dropWhile isspace s = CHR '','' # t" and r: "r = dropWhile isspace t"
    by (auto simp add: separator_def split: list.splits if_splits)
  have 1: "s = takeWhile isspace s @ CHR '','' # takeWhile isspace t @ r"
    using takeWhile_dropWhile_id [of isspace s] takeWhile_dropWhile_id [of isspace t]
    unfolding t r by simp
  have 2: "list_all isspace (takeWhile isspace s)" "list_all isspace (takeWhile isspace t)"
    by (auto simp add: list_all_iff dest: set_takeWhileD)
  have 3: "r \<noteq> [] \<longrightarrow> \<not> isspace (hd r)"
    unfolding r using hd_dropWhile by blast
  from 1 2 3 show ?thesis by blast
qed

lemma count_spaces: "list_all isspace w \<Longrightarrow> count_list w (CHR '','') = 0"
  using comma_not_space by (induction w) auto

lemma ends_with_comma_append:
  assumes "r \<noteq> []" "\<not> isspace (hd r)"
  shows "ends_with_comma (u @ r) = ends_with_comma r"
proof -
  have x: "hd r \<in> set (rev r)" using assms(1) by simp
  have "dropWhile isspace (rev r @ rev u) = dropWhile isspace (rev r) @ rev u"
    using x assms(2) by (rule dropWhile_append1 [where P = isspace])
  moreover have "dropWhile isspace (rev r) \<noteq> []"
    using x assms(2) unfolding dropWhile_eq_Nil_conv by blast
  ultimately show ?thesis
    unfolding ends_with_comma_def rev_append
    by (cases "dropWhile isspace (rev r)") simp_all
qed

lemma ends_with_comma_spaces:
  assumes "list_all isspace w"
  shows "ends_with_comma (u @ CHR '','' # w)"
proof -
  have "dropWhile isspace (rev w @ CHR '','' # rev u) = dropWhile isspace (CHR '','' # rev u)"
    using assms by (intro dropWhile_append2) (simp add: list_all_iff)
  then have "dropWhile isspace (rev (u @ CHR '','' # w)) = CHR '','' # rev u"
    using comma_not_space by simp
  then show ?thesis unfolding ends_with_comma_def by simp
qed

lemma ends_with_comma_Cons:
  assumes "c \<noteq> CHR '','' "
  shows "ends_with_comma (c # s) = ends_with_comma s"
proof (cases "list_all isspace s")
  case True
  then have 1: "dropWhile isspace (rev s) = []" by (simp add: list_all_iff)
  have 2: "dropWhile isspace (rev s @ [c]) = dropWhile isspace [c]"
    using True by (intro dropWhile_append2) (simp add: list_all_iff)
  have "ends_with_comma (c # s) = False"
    unfolding ends_with_comma_def rev.simps 2 using assms by simp
  moreover have "ends_with_comma s = False"
    unfolding ends_with_comma_def 1 by simp
  ultimately show ?thesis by simp
next
  case False
  then obtain x where x: "x \<in> set (rev s)" "\<not> isspace x" by (auto simp add: list_all_iff)
  have 1: "dropWhile isspace (rev s @ [c]) = dropWhile isspace (rev s) @ [c]"
    using x by (rule dropWhile_append1 [where P = isspace])
  have 2: "dropWhile isspace (rev s) \<noteq> []"
    using x unfolding dropWhile_eq_Nil_conv by blast
  show ?thesis
    unfolding ends_with_comma_def rev.simps 1 using 2
    by (cases "dropWhile isspace (rev s)") simp_all
qed

lemma separator_None_head: "separator (c # s) = None \<Longrightarrow> c \<noteq> CHR '',''"
  using comma_not_space by (auto simp add: separator_def)

lemma length_tokens_from:
  "length (tokens_from tok s) =
     count_list s (CHR '','') + (if ends_with_comma s then 0 else 1)"
proof (induction tok s rule: tokens_from.induct)
  case (1 tok)
  show ?case by (simp add: ends_with_comma_def)
next
  case (2 tok c s)
  show ?case
  proof (cases "separator (c # s)")
    case None
    note n = separator_None_head [OF None]
    have "length (tokens_from tok (c # s)) = length (tokens_from (tok @ [c]) s)"
      using None by simp
    also have "\<dots> = count_list s (CHR '','') + (if ends_with_comma s then 0 else 1)"
      by (rule "2.IH"(1) [OF None])
    also have "\<dots> = count_list (c # s) (CHR '','') + (if ends_with_comma (c # s) then 0 else 1)"
      using n by (simp add: ends_with_comma_Cons)
    finally show ?thesis .
  next
    case (Some r)
    from separator_split [OF Some] obtain w1 w2 where
      s: "c # s = w1 @ CHR '','' # w2 @ r" and w: "list_all isspace w1" "list_all isspace w2"
      and h: "r \<noteq> [] \<longrightarrow> \<not> isspace (hd r)" by blast
    have cnt: "count_list (c # s) (CHR '','') = Suc (count_list r (CHR '',''))"
      unfolding s using w by (simp add: count_spaces)
    show ?thesis
    proof (cases "r = []")
      case True
      have e: "ends_with_comma (c # s)"
        unfolding s True using ends_with_comma_spaces [OF w(2), of w1] by simp
      have "length (tokens_from tok (c # s)) = 1" using Some True by simp
      then show ?thesis unfolding cnt using e True by simp
    next
      case False
      have e: "ends_with_comma (c # s) = ends_with_comma r"
        using ends_with_comma_append [OF False, of "w1 @ CHR '','' # w2"] h False
        unfolding s by simp
      have "length (tokens_from tok (c # s)) = Suc (length (tokens_from [] r))"
        using Some False by simp
      also have "length (tokens_from [] r) =
                   count_list r (CHR '','') + (if ends_with_comma r then 0 else 1)"
        by (rule "2.IH"(2) [OF Some False])
      finally show ?thesis unfolding cnt e by simp
    qed
  qed
qed

lemma length_tokens:
  "length (tokens input) =
     count_list input (CHR '','') + (if ends_with_comma input then 0 else 1)"
  unfolding tokens_def by (rule length_tokens_from)

section \<open>What the accessor throws\<close>

lemma vector_at_throws: "vector_at xs n = Throws e \<Longrightarrow> e = out_of_range"
  by (simp add: vector_at_def split: if_splits)

lemma at_throws: "at xs i = Throws e \<Longrightarrow> e = out_of_range"
  by (auto simp add: at_def Let_def dest: vector_at_throws split: if_splits)

lemma at_defined: "at xs i \<noteq> Undefined"
  by (simp add: at_def Let_def vector_at_def)

section \<open>A negative start\<close>

lemma negative_start_not_below:
  assumes "sint (start r) < 0" and "has_stop r \<longrightarrow> 0 \<le> sint (stop r)"
    and "length xs \<le> max_size"
  shows "\<not> to_size_t (start r) < (if has_stop r then to_size_t (stop r) else vsize xs)"
proof -
  have s: "18446744071562067968 \<le> uint (to_size_t (start r))"
    unfolding uint_to_size_t_neg [OF assms(1)] using sint_range32 [of "start r"] by simp
  show ?thesis
  proof (cases "has_stop r")
    case True
    then have "uint (to_size_t (stop r)) = sint (stop r)"
      using assms(2) by (simp add: uint_to_size_t_nonneg)
    then have "uint (to_size_t (stop r)) < 2147483648"
      using sint_range32 [of "stop r"] by simp
    then show ?thesis using True s by (simp add: word_less_def)
  next
    case False
    have "length xs < 18446744073709551616" using assms(3) by (simp add: max_size_def)
    then have "uint (vsize xs) = int (length xs)" by (rule uint_vsize_small)
    then have "uint (vsize xs) < 9223372036854775808"
      using assms(3) by (simp add: max_size_def)
    then show ?thesis using False s by (simp add: word_less_def)
  qed
qed

lemma slice_negative_start:
  assumes "k < length rs" and "n \<noteq> int k" and "sint (start (rs ! k)) < 0"
    and "has_stop (rs ! k) \<longrightarrow> 0 \<le> sint (stop (rs ! k))"
    and "outer_length A \<le> max_size"
  shows "slice (Suc fuel) rs (int k) n A =
           Some (Returns (case A of Inner1 xs \<Rightarrow> Inner1 [] | InnerN cs \<Rightarrow> InnerN []))"
proof (cases A)
  case (Inner1 xs)
  then have "length xs \<le> max_size" using assms(5) by simp
  from negative_start_not_below [OF assms(3,4) this]
  show ?thesis using Inner1 assms(1,2) by (simp add: Let_def split del: if_split)
next
  case (InnerN cs)
  then have "length cs \<le> max_size" using assms(5) by simp
  from negative_start_not_below [OF assms(3,4) this]
  show ?thesis using InnerN assms(1,2) by (simp add: Let_def split del: if_split)
qed

section \<open>A negative stop\<close>





lemma at_past_end:
  assumes "length xs < 2147483648" "int (length xs) \<le> sint i"
  shows "at xs i = Throws out_of_range"
  unfolding at_eq_at_spec [OF assms(1)] using assms(2) by (simp add: at_spec_def Let_def)











section \<open>The full range of an axis\<close>






















section \<open>New objects\<close>



section \<open>Claims about the parser\<close>

text \<open>
  Claim C5, as amended. For every text of the three-field form whose literals are
  \<open>int\<close>s the parser returns the literals that are present and fills the others in: a
  missing start is 0, a missing stop clears \<open>has_stop\<close> (and stores 0), a missing step
  is 1; for every such text of the two-field form the step is 1. A text of the grammar
  with a literal that is not an \<open>int\<close> yields no Range: \<open>std::stoi\<close> throws
  \<open>std::out_of_range\<close>. The three examples of the specification are evaluated.
\<close>

theorem parseRange_defaults:
  "(grammar3 s a b c \<longrightarrow>
      parseRange s =
        (if is_int (literal_val a) \<and> is_int (literal_val b) \<and> is_int (literal_val c)
         then Returns \<lparr>start = (if a = [] then 0 else word_of_int (literal_val a)),
                       stop = (if b = [] then 0 else word_of_int (literal_val b)),
                       step = (if c = [] then 1 else word_of_int (literal_val c)),
                       has_stop = (b \<noteq> [])\<rparr>
         else Throws out_of_range)) \<and>
   (grammar2 s a b \<longrightarrow>
      parseRange s =
        (if is_int (literal_val a) \<and> is_int (literal_val b)
         then Returns \<lparr>start = (if a = [] then 0 else word_of_int (literal_val a)),
                       stop = (if b = [] then 0 else word_of_int (literal_val b)),
                       step = 1,
                       has_stop = (b \<noteq> [])\<rparr>
         else Throws out_of_range)) \<and>
   parseRange ''1:5:2'' = Returns \<lparr>start = 1, stop = 5, step = 2, has_stop = True\<rparr> \<and>
   parseRange '':5'' = Returns \<lparr>start = 0, stop = 5, step = 1, has_stop = True\<rparr> \<and>
   parseRange ''1:'' = Returns \<lparr>start = 1, stop = 0, step = 1, has_stop = False\<rparr>"
proof (intro conjI impI)
  show "parseRange ''1:5:2'' = Returns \<lparr>start = 1, stop = 5, step = 2, has_stop = True\<rparr>"
    by (simp add: parse_eval)
  show "parseRange '':5'' = Returns \<lparr>start = 0, stop = 5, step = 1, has_stop = True\<rparr>"
    by (simp add: parse_eval)
  show "parseRange ''1:'' = Returns \<lparr>start = 1, stop = 0, step = 1, has_stop = False\<rparr>"
    by (simp add: parse_eval)
qed (rule parseRange_grammar3, assumption, rule parseRange_grammar2, assumption)

text \<open>The theorem at a text of each form, with white space and a negative step.\<close>

theorem parseRange_defaults_witness:
  "grammar3 '' 7 : :-2'' ''7'' [] ''-2'' \<and>
   parseRange '' 7 : :-2'' = Returns \<lparr>start = 7, stop = 0, step = -2, has_stop = False\<rparr> \<and>
   grammar2 '':40 '' [] ''40'' \<and>
   parseRange '':40 '' = Returns \<lparr>start = 0, stop = 40, step = 1, has_stop = True\<rparr>"
proof -
  have g3: "grammar3 '' 7 : :-2'' ''7'' [] ''-2''"
    unfolding regex_match3_iff [symmetric]
    by (simp add: regex_match3_def field_def opt_int_def colon_def isspace_def isdigit_def)
  have g2: "grammar2 '':40 '' [] ''40''"
    unfolding regex_match2_iff [symmetric]
    by (simp add: regex_match2_def field_def opt_int_def colon_def isspace_def isdigit_def)
  have v: "literal_val ''7'' = 7" "literal_val ''-2'' = -2" "literal_val ''40'' = 40"
    "literal_val [] = 0"
    by (simp_all add: literal_val_def digits_val_def digit_val_def)
  show ?thesis
    using g3 g2 parseRange_defaults [of "'' 7 : :-2''" "''7''" "[]" "''-2''"]
      parseRange_defaults [of "'':40 ''" "[]" "''40''"]
    by (simp add: v is_int_def)
qed

text \<open>
  The claim as worded fails for a literal outside \<open>int\<close>: the text \<open>:2147483648\<close> is of
  the two-field form, with the stop \<open>2 ^ 31\<close>, and the parser throws instead of returning
  a Range.
\<close>

theorem parseRange_large_literal_counterexample:
  "grammar2 '':2147483648'' [] ''2147483648'' \<and>
   matches_grammar '':2147483648'' \<and>
   parseRange '':2147483648'' = Throws out_of_range"
proof -
  have g: "grammar2 '':2147483648'' [] ''2147483648''"
    unfolding regex_match2_iff [symmetric]
    by (simp add: regex_match2_def field_def opt_int_def colon_def isspace_def isdigit_def)
  then have m: "matches_grammar '':2147483648''"
    unfolding matches_grammar_def by blast
  have p: "parseRange '':2147483648'' = Throws out_of_range"
    by (simp add: parse_eval)
  show ?thesis by (intro conjI g m p)
qed

text \<open>
  Claim C6. \<open>parseRange\<close> fails with FormatError exactly on the texts that match neither
  form of the grammar. A single integer and a word fail with FormatError; a zero step is
  accepted whenever the text is of the three-field form and its start and stop are
  \<open>int\<close>s.
\<close>

theorem parseRange_FormatError:
  "(parseRange s = Throws FormatError \<longleftrightarrow> \<not> matches_grammar s) \<and>
   parseRange ''3'' = Throws FormatError \<and>
   parseRange ''abc'' = Throws FormatError \<and>
   parseRange ''1:5:0'' = Returns \<lparr>start = 1, stop = 5, step = 0, has_stop = True\<rparr> \<and>
   (grammar3 s a b c \<and> c \<noteq> [] \<and> literal_val c = 0 \<and>
    is_int (literal_val a) \<and> is_int (literal_val b) \<longrightarrow>
      (\<exists>r. parseRange s = Returns r \<and> step r = 0))"
proof (intro conjI impI)
  show "parseRange s = Throws FormatError \<longleftrightarrow> \<not> matches_grammar s"
    by (rule parseRange_FormatError_iff)
  show "parseRange ''3'' = Throws FormatError" by (simp add: parse_eval)
  show "parseRange ''abc'' = Throws FormatError" by (simp add: parse_eval)
  show "parseRange ''1:5:0'' = Returns \<lparr>start = 1, stop = 5, step = 0, has_stop = True\<rparr>"
    by (simp add: parse_eval)
next
  assume h: "grammar3 s a b c \<and> c \<noteq> [] \<and> literal_val c = 0 \<and>
    is_int (literal_val a) \<and> is_int (literal_val b)"
  then have "grammar3 s a b c" by simp
  from parseRange_grammar3 [OF this] h
  show "\<exists>r. parseRange s = Returns r \<and> step r = 0"
    by (simp add: is_int_def)
qed

text \<open>The theorem at a text with a zero step, and at a text outside the grammar.\<close>

theorem parseRange_FormatError_witness:
  "grammar3 ''2: 9 :-0'' ''2'' ''9'' ''-0'' \<and>
   (\<exists>r. parseRange ''2: 9 :-0'' = Returns r \<and> step r = 0) \<and>
   \<not> matches_grammar ''1,2'' \<and> parseRange ''1,2'' = Throws FormatError"
proof -
  have g3: "grammar3 ''2: 9 :-0'' ''2'' ''9'' ''-0''"
    unfolding regex_match3_iff [symmetric]
    by (simp add: regex_match3_def field_def opt_int_def colon_def isspace_def isdigit_def)
  have v: "literal_val ''2'' = 2" "literal_val ''9'' = 9" "literal_val ''-0'' = 0"
    by (simp_all add: literal_val_def digits_val_def digit_val_def)
  have p: "parseRange ''1,2'' = Throws FormatError" by (simp add: parse_eval)
  show ?thesis
    using g3 p parseRange_FormatError [of "''2: 9 :-0''" "''2''" "''9''" "''-0''"]
      parseRange_FormatError [of "''1,2''"]
    by (simp add: v is_int_def)
qed

section \<open>Claims about the slice loop\<close>

text \<open>
  Claim C1. The procedure of the specification iterates while \<open>i < limit\<close> and appends
  the selection of the child at the normalized index \<open>i\<close>. The loop of the code
  compares the \<open>int\<close> counter with the \<open>std::size_t\<close> limit, so a negative counter is
  converted to a value above every length and the test fails. For the range of the
  slice text \<open>-1:\<close> on an array of two rows, the code returns an empty array, while
  the procedure as worded selects the last row (index \<open>-1\<close>), then the first and
  the last (indices 0 and 1).
\<close>

theorem slice_negative_start_divergence:
  "slice 5 [\<lparr>start = - 1, stop = 0, step = 1, has_stop = False\<rparr>] 0 1
     (InnerN [Inner1 [1, 2 :: nat], Inner1 [3, 4]]) = Some (Returns (InnerN [])) \<and>
   select (<) 5 [\<lparr>start = - 1, stop = 0, step = 1, has_stop = False\<rparr>] 0 1
     (InnerN [Inner1 [1, 2 :: nat], Inner1 [3, 4]]) =
     Some (Returns (InnerN [Inner1 [3, 4], Inner1 [1, 2], Inner1 [3, 4]]))"
proof
  show "slice 5 [\<lparr>start = - 1, stop = 0, step = 1, has_stop = False\<rparr>] 0 1
     (InnerN [Inner1 [1, 2 :: nat], Inner1 [3, 4]]) = Some (Returns (InnerN []))"
    by code_simp
  show "select (<) 5 [\<lparr>start = - 1, stop = 0, step = 1, has_stop = False\<rparr>] 0 1
     (InnerN [Inner1 [1, 2 :: nat], Inner1 [3, 4]]) =
     Some (Returns (InnerN [Inner1 [3, 4], Inner1 [1, 2], Inner1 [3, 4]]))"
    by code_simp
qed

section \<open>Claims about indexing\<close>




section \<open>Claims about construction\<close>

text \<open>
  Claim C7, as amended. Constructing an array of rank \<open>dim\<close> from an array \<open>B\<close> of
  rank \<open>M < dim\<close> gives an array whose outer axis has length 1. Its only element is
  \<open>B\<close> itself when \<open>M = dim - 1\<close>, and otherwise \<open>B\<close> copied to rank \<open>dim - 1\<close> in the
  same way: in all, \<open>B\<close> is wrapped in \<open>dim - M\<close> vectors of one element, and the
  result has rank \<open>dim\<close>. A rank-2 array built from a rank-1 array \<open>B\<close> has the single
  element \<open>B\<close>.
\<close>

theorem from_lower_lift:
  assumes "M < dim"
  shows "outer_length (from_lower dim M B) = 1 \<and>
         from_lower dim M B = InnerN [if M = dim - 1 then B else from_lower (dim - 1) M B] \<and>
         from_lower dim M B = ((\<lambda>x. InnerN [x]) ^^ (dim - M)) B \<and>
         (has_dim M B \<and> 1 \<le> M \<longrightarrow> has_dim dim (from_lower dim M B)) \<and>
         from_lower 2 1 B = InnerN [B]"
proof (intro conjI impI)
  show "outer_length (from_lower dim M B) = 1"
    by (subst from_lower.simps) simp
  show "from_lower dim M B = InnerN [if M = dim - 1 then B else from_lower (dim - 1) M B]"
    using assms by (subst from_lower.simps) auto
  show "from_lower dim M B = ((\<lambda>x. InnerN [x]) ^^ (dim - M)) B"
    by (rule from_lower_funpow [OF assms])
  show "from_lower 2 1 B = InnerN [B]"
    by (subst from_lower.simps) simp
next
  assume "has_dim M B \<and> 1 \<le> M"
  then have "has_dim (M + (dim - M)) (((\<lambda>x. InnerN [x]) ^^ (dim - M)) B)"
    using has_dim_wrap by blast
  then show "has_dim dim (from_lower dim M B)"
    using assms by (simp add: from_lower_funpow)
qed

text \<open>The theorem for a rank-3 array built from a rank-1 array.\<close>

theorem from_lower_lift_witness:
  "(1 :: nat) < 3 \<and> has_dim 1 (Inner1 [7 :: nat, 8]) \<and>
   outer_length (from_lower 3 1 (Inner1 [7 :: nat, 8])) = 1 \<and>
   from_lower 3 1 (Inner1 [7 :: nat, 8]) = InnerN [InnerN [Inner1 [7, 8]]] \<and>
   has_dim 3 (from_lower 3 1 (Inner1 [7 :: nat, 8]))"
proof -
  have a: "(1 :: nat) < 3" by simp
  have h: "has_dim 1 (Inner1 [7 :: nat, 8])" by simp
  note t = from_lower_lift [OF a, of "Inner1 [7 :: nat, 8]"]
  have f: "from_lower 3 1 (Inner1 [7 :: nat, 8]) = InnerN [InnerN [Inner1 [7, 8]]]"
    using t by (simp add: numeral_2_eq_2)
  have o: "outer_length (from_lower 3 1 (Inner1 [7 :: nat, 8])) = 1"
    using t by blast
  have d: "has_dim 3 (from_lower 3 1 (Inner1 [7 :: nat, 8]))"
    using t h by blast
  show ?thesis by (intro conjI a h o f d)
qed

text \<open>
  The claim as worded fails when the ranks differ by more than one: the only element of
  a rank-3 array built from a rank-1 array is a rank-2 array, not the original.
\<close>

theorem from_lower_two_levels_counterexample:
  "from_lower 3 1 (Inner1 [7 :: nat]) = InnerN [InnerN [Inner1 [7]]] \<and>
   from_lower 3 1 (Inner1 [7 :: nat]) \<noteq> InnerN [Inner1 [7]]"
  by (simp add: from_lower.simps [of 3] from_lower.simps [of 2])

section \<open>Claims about \<open>operator[]\<close>\<close>

text \<open>
  Claim C2, as amended. The components of a text are what the token iterator yields:
  the text between the commas, one more than there are commas, except that an empty
  last component (a text that ends with a comma) is not yielded. When a text has more
  components than the rank \<open>dim\<close> of an array of rank 2 or more, \<open>operator[]\<close> fails
  before any axis is applied, whatever the array and the fuel: with the exception of
  the first of the leading \<open>dim\<close> components that \<open>parseRange\<close> rejects, and with
  TooManySlices when all of them parse. For a rank-2 array, \<open>"0:1,0:1,0:1"\<close> fails with
  TooManySlices, while \<open>":,:,"\<close> has two components and returns the array.
\<close>

theorem too_many_slices:
  "(2 \<le> dim \<and> dim < length (tokens input) \<longrightarrow>
      subscriptN dim fuel A input =
        Some (Throws (case first_failure (take dim (tokens input)) of
                        None \<Rightarrow> TooManySlices | Some e \<Rightarrow> e))) \<and>
   length (tokens input) =
     count_list input (CHR '','') + (if ends_with_comma input then 0 else 1) \<and>
   tokens ''0:1,0:1,0:1'' = [''0:1'', ''0:1'', ''0:1''] \<and>
   subscriptN 2 fuel A ''0:1,0:1,0:1'' = Some (Throws TooManySlices) \<and>
   tokens '':,:,'' = ['':'', '':''] \<and>
   subscriptN 2 8 (InnerN [Inner1 [1, 2 :: nat], Inner1 [3, 4]]) '':,:,'' =
     Some (Returns (InnerN [Inner1 [1, 2], Inner1 [3, 4]]))"
proof (intro conjI impI)
  assume "2 \<le> dim \<and> dim < length (tokens input)"
  then have "dim < length (tokens input)" by simp
  then show "subscriptN dim fuel A input =
        Some (Throws (case first_failure (take dim (tokens input)) of
                        None \<Rightarrow> TooManySlices | Some e \<Rightarrow> e))"
    by (rule subscriptN_too_many)
next
  show "length (tokens input) =
     count_list input (CHR '','') + (if ends_with_comma input then 0 else 1)"
    by (rule length_tokens)
next
  show t: "tokens ''0:1,0:1,0:1'' = [''0:1'', ''0:1'', ''0:1'']"
    by (simp add: tokens_eval)
  have p: "parseRange ''0:1'' = Returns \<lparr>start = 0, stop = 1, step = 1, has_stop = True\<rparr>"
    by (simp add: parse_eval)
  have "dim2 < length (tokens ''0:1,0:1,0:1'')" if "dim2 = 2" for dim2 :: nat
    using that t by simp
  from subscriptN_too_many [OF this, of 2 fuel A]
  show "subscriptN 2 fuel A ''0:1,0:1,0:1'' = Some (Throws TooManySlices)"
    by (simp add: t p)
next
  show t: "tokens '':,:,'' = ['':'', '':'']" by (simp add: tokens_eval)
  have p: "parseRange '':'' = Returns \<lparr>start = 0, stop = 0, step = 1, has_stop = False\<rparr>"
    by (simp add: parse_eval)
  let ?r = "\<lparr>start = 0, stop = 0, step = 1, has_stop = False\<rparr>"
  let ?A = "InnerN [Inner1 [1, 2 :: nat], Inner1 [3, 4]]"
  have s: "slice 8 [?r, ?r] 0 2 ?A = Some (Returns ?A)" by code_simp
  have "subscriptN 2 8 ?A '':,:,'' = slice 8 [?r, ?r] 0 2 ?A"
    unfolding subscriptN_def t by (simp add: p del: slice.simps)
  then show "subscriptN 2 8 ?A '':,:,'' = Some (Returns ?A)" unfolding s .
qed

text \<open>The theorem at a text of three components whose second is malformed.\<close>

theorem too_many_slices_witness:
  "(2 :: nat) \<le> 2 \<and> 2 < length (tokens ''0:1, 5, :'') \<and>
   subscriptN 2 0 (InnerN [Inner1 [1 :: nat]]) ''0:1, 5, :'' = Some (Throws FormatError)"
proof -
  have t: "tokens ''0:1, 5, :'' = [''0:1'', ''5'', '':'']" by (simp add: tokens_eval)
  have l: "2 < length (tokens ''0:1, 5, :'')" by (simp only: t) simp
  have d: "(2 :: nat) \<le> 2" by simp
  have p: "parseRange ''0:1'' = Returns \<lparr>start = 0, stop = 1, step = 1, has_stop = True\<rparr>"
    "parseRange ''5'' = Throws FormatError"
    by (simp_all add: parse_eval)
  note th = too_many_slices [of 2 "''0:1, 5, :''" 0 "InnerN [Inner1 [1 :: nat]]", THEN conjunct1]
  have "subscriptN 2 0 (InnerN [Inner1 [1 :: nat]]) ''0:1, 5, :'' =
        Some (Throws (case first_failure (take 2 (tokens ''0:1, 5, :'')) of
                        None \<Rightarrow> TooManySlices | Some e \<Rightarrow> e))"
    using th d l by blast
  then have 1: "subscriptN 2 0 (InnerN [Inner1 [1 :: nat]]) ''0:1, 5, :'' = Some (Throws FormatError)"
    by (simp add: t p)
  show ?thesis by (intro conjI d l 1)
qed

text \<open>
  The claim as worded fails when a leading component is malformed: the components are
  parsed as they are counted, so \<open>"abc,0:1,0:1"\<close> on a rank-2 array fails with
  FormatError at the first component, before the third is reached.
\<close>

theorem format_error_first_counterexample:
  "length (tokens ''abc,0:1,0:1'') = 3 \<and>
   subscriptN 2 5 (InnerN [Inner1 [1 :: nat, 2], Inner1 [3, 4]]) ''abc,0:1,0:1'' =
     Some (Throws FormatError) \<and>
   FormatError \<noteq> TooManySlices"
proof -
  have t: "tokens ''abc,0:1,0:1'' = [''abc'', ''0:1'', ''0:1'']" by (simp add: tokens_eval)
  have p: "parseRange ''abc'' = Throws FormatError" by (simp add: parse_eval)
  show ?thesis by (simp add: subscriptN_def t p)
qed

section \<open>Claims about the exceptions\<close>

text \<open>
  Claim C10. A text outside the grammar and an over-supplied list of slices are both
  reported by \<open>std::invalid_argument\<close>, with different messages; the accessor throws
  \<open>std::out_of_range\<close> only. So every handler, whatever class it names, takes both of
  the first two or neither, while a handler for \<open>std::out_of_range\<close> takes the third
  and neither of the first two.
\<close>

theorem exception_classes:
  "(\<not> matches_grammar s \<longrightarrow> parseRange s = Throws (invalid_argument ''Invalid slice format'')) \<and>
   (dim < length (tokens input) \<and> first_failure (take dim (tokens input)) = None \<longrightarrow>
      subscriptN dim fuel A input = Some (Throws (invalid_argument ''Too many slices''))) \<and>
   (at xs i = Throws e \<longrightarrow> e = out_of_range) \<and>
   class_of FormatError = Std_invalid_argument \<and>
   class_of TooManySlices = Std_invalid_argument \<and>
   what FormatError \<noteq> what TooManySlices \<and>
   class_of OutOfRange = Std_out_of_range \<and>
   (\<forall>c. catches c FormatError = catches c TooManySlices) \<and>
   catches Std_invalid_argument FormatError \<and>
   \<not> catches Std_invalid_argument OutOfRange \<and>
   catches Std_out_of_range OutOfRange \<and>
   \<not> catches Std_out_of_range FormatError \<and>
   \<not> catches Std_out_of_range TooManySlices"
proof (intro conjI impI allI)
  assume "\<not> matches_grammar s"
  then show "parseRange s = Throws (invalid_argument ''Invalid slice format'')"
    by (simp add: parseRange_FormatError_iff)
next
  assume a: "dim < length (tokens input) \<and> first_failure (take dim (tokens input)) = None"
  then have "dim < length (tokens input)" by simp
  from subscriptN_too_many [OF this, of fuel A] a
  show "subscriptN dim fuel A input = Some (Throws (invalid_argument ''Too many slices''))"
    by simp
next
  assume "at xs i = Throws e"
  then show "e = out_of_range" by (rule at_throws)
qed (simp_all add: catches_def)

text \<open>The theorem at a malformed text, at three slices for rank 2, and at an index past the end.\<close>

theorem exception_classes_witness:
  "\<not> matches_grammar ''a:b'' \<and>
   parseRange ''a:b'' = Throws (invalid_argument ''Invalid slice format'') \<and>
   2 < length (tokens '':,:,:'') \<and> first_failure (take 2 (tokens '':,:,:'')) = None \<and>
   subscriptN 2 0 (InnerN [Inner1 [1 :: nat]]) '':,:,:'' =
     Some (Throws (invalid_argument ''Too many slices'')) \<and>
   at [1 :: nat] 5 = Throws out_of_range"
proof -
  have p: "parseRange ''a:b'' = Throws FormatError" by (simp add: parse_eval)
  then have m: "\<not> matches_grammar ''a:b''" by (simp add: parseRange_FormatError_iff)
  have t: "tokens '':,:,:'' = ['':'', '':'', '':'']" by (simp add: tokens_eval)
  have q: "parseRange '':'' = Returns \<lparr>start = 0, stop = 0, step = 1, has_stop = False\<rparr>"
    by (simp add: parse_eval)
  have l: "2 < length (tokens '':,:,:'')" by (simp only: t) simp
  have f: "first_failure (take 2 (tokens '':,:,:'')) = None" by (simp only: t) (simp add: q)
  have a: "at [1 :: nat] 5 = Throws out_of_range"
    by (simp add: at_def vector_at_def to_size_t_def)
  note th = exception_classes [of "''a:b''" 2 "'':,:,:''" 0 "InnerN [Inner1 [1 :: nat]]" "[1 :: nat]" 5 out_of_range]
  have s: "subscriptN 2 0 (InnerN [Inner1 [1 :: nat]]) '':,:,:'' =
             Some (Throws (invalid_argument ''Too many slices''))"
    using th l f by blast
  show ?thesis by (intro conjI m p l f s a)
qed

section \<open>Claims about negative slice bounds\<close>

text \<open>
  Claim C8. On an axis whose range has a negative start and a limit that is an explicit
  non-negative stop or the length of the axis, the first test of the loop fails (for a
  vector no longer than \<open>max_size()\<close>): the call returns after that one test, whatever
  the elements and the deeper ranges are, and the axis of the result is empty. A
  negative start is not counted from the end, while a negative call-style index is:
  on an array of two rows the slice texts \<open>-1:\<close> and \<open>-1:2\<close> give an empty array,
  and the index \<open>-1\<close> gives the last row.
\<close>

theorem negative_start_selects_nothing:
  "(k < length rs \<and> n \<noteq> int k \<and> sint (start (rs ! k)) < 0 \<and>
    (has_stop (rs ! k) \<longrightarrow> 0 \<le> sint (stop (rs ! k))) \<and> outer_length A \<le> max_size \<longrightarrow>
      slice (Suc fuel) rs (int k) n A =
        Some (Returns (case A of Inner1 xs \<Rightarrow> Inner1 [] | InnerN cs \<Rightarrow> InnerN []))) \<and>
   subscriptN 2 (Suc fuel) (InnerN [Inner1 [1, 2 :: nat], Inner1 [3, 4]]) ''-1:'' =
     Some (Returns (InnerN [])) \<and>
   subscriptN 2 (Suc fuel) (InnerN [Inner1 [1, 2 :: nat], Inner1 [3, 4]]) ''-1:2'' =
     Some (Returns (InnerN [])) \<and>
   call (InnerN [Inner1 [1, 2 :: nat], Inner1 [3, 4]]) (- 1) [] = Returns (Sub (Inner1 [3, 4]))"
proof (intro conjI impI)
  assume "k < length rs \<and> n \<noteq> int k \<and> sint (start (rs ! k)) < 0 \<and>
    (has_stop (rs ! k) \<longrightarrow> 0 \<le> sint (stop (rs ! k))) \<and> outer_length A \<le> max_size"
  then show "slice (Suc fuel) rs (int k) n A =
        Some (Returns (case A of Inner1 xs \<Rightarrow> Inner1 [] | InnerN cs \<Rightarrow> InnerN []))"
    using slice_negative_start by blast
next
  let ?A = "InnerN [Inner1 [1, 2 :: nat], Inner1 [3, 4]]"
  have t: "tokens ''-1:'' = [''-1:'']" "tokens ''-1:2'' = [''-1:2'']"
    by (simp_all add: tokens_eval)
  have p: "parseRange ''-1:'' = Returns \<lparr>start = - 1, stop = 0, step = 1, has_stop = False\<rparr>"
    "parseRange ''-1:2'' = Returns \<lparr>start = - 1, stop = 2, step = 1, has_stop = True\<rparr>"
    by (simp_all add: parse_eval)
  have m: "outer_length ?A \<le> max_size" by (simp add: max_size_def)
  have 1: "slice (Suc fuel) [\<lparr>start = - 1, stop = 0, step = 1, has_stop = False\<rparr>, Range0] (int 0) 1 ?A
             = Some (Returns (InnerN []))"
    using slice_negative_start [of 0 "[\<lparr>start = - 1, stop = 0, step = 1, has_stop = False\<rparr>, Range0]" 1 ?A fuel] m
    by simp
  have 2: "slice (Suc fuel) [\<lparr>start = - 1, stop = 2, step = 1, has_stop = True\<rparr>, Range0] (int 0) 1 ?A
             = Some (Returns (InnerN []))"
    using slice_negative_start [of 0 "[\<lparr>start = - 1, stop = 2, step = 1, has_stop = True\<rparr>, Range0]" 1 ?A fuel] m
    by simp
  show "subscriptN 2 (Suc fuel) ?A ''-1:'' = Some (Returns (InnerN []))"
    unfolding subscriptN_def t using 1
    by (simp add: p del: slice.simps)
  show "subscriptN 2 (Suc fuel) ?A ''-1:2'' = Some (Returns (InnerN []))"
    unfolding subscriptN_def t using 2
    by (simp add: p del: slice.simps)
  show "call ?A (- 1) [] = Returns (Sub (Inner1 [3, 4]))"
    using at_last(1) [of "[Inner1 [1, 2 :: nat], Inner1 [3, 4]]"] by simp
qed

text \<open>The theorem on a vector of three scalars with start \<open>-2\<close>.\<close>

theorem negative_start_selects_nothing_witness:
  "(0 :: nat) < length [\<lparr>start = - 2, stop = 0, step = 1, has_stop = False\<rparr>] \<and>
   sint (start ([\<lparr>start = - 2, stop = 0, step = 1, has_stop = False\<rparr>] ! 0)) < 0 \<and>
   outer_length (Inner1 [5, 6, 7 :: nat]) \<le> max_size \<and>
   slice (Suc 0) [\<lparr>start = - 2, stop = 0, step = 1, has_stop = False\<rparr>] (int 0) 1
     (Inner1 [5, 6, 7 :: nat]) = Some (Returns (Inner1 []))"
proof -
  let ?rs = "[\<lparr>start = - 2, stop = 0, step = 1, has_stop = False\<rparr>]"
  have a: "(0 :: nat) < length ?rs" by simp
  have b: "sint (start (?rs ! 0)) < 0" by simp
  have c: "outer_length (Inner1 [5, 6, 7 :: nat]) \<le> max_size" by (simp add: max_size_def)
  have d: "has_stop (?rs ! 0) \<longrightarrow> 0 \<le> sint (stop (?rs ! 0))" by simp
  have e: "(1 :: int) \<noteq> int 0" by simp
  note th = negative_start_selects_nothing [of 0 ?rs 1 "Inner1 [5, 6, 7 :: nat]" 0]
  have "slice (Suc 0) ?rs (int 0) 1 (Inner1 [5, 6, 7 :: nat]) =
     Some (Returns (case Inner1 [5, 6, 7 :: nat] of Inner1 xs \<Rightarrow> Inner1 [] | InnerN cs \<Rightarrow> InnerN []))"
    using th a b c d e by blast
  then have f: "slice (Suc 0) ?rs (int 0) 1 (Inner1 [5, 6, 7 :: nat]) = Some (Returns (Inner1 []))"
    by (simp only: inner.case)
  show ?thesis by (intro conjI a b c f)
qed




section \<open>Claims about the result of slicing\<close>




end
